theory Spec2Isabelle
  imports Complex_Main "HOL-Library.Multiset" "HOL-Library.AList" "HOL-Library.List_Lexorder"
begin

section \<open>Costs: Python floats with \<open>+inf\<close>\<close>

text \<open>
  \<open>basic.py\<close> and \<open>PrunedDP.py\<close> compute with Python floats. Edge weights are finite
  numbers, modelled exactly as rationals; \<open>float('inf')\<close> is the extra value
  \<open>PInf\<close>. \<open>best_cost\<close> and the default of \<open>visited.get(state, float('inf'))\<close>
  range over \<open>ecost\<close>; the costs stored in the visited table and in the frontier are sums
  of weights and therefore finite.
\<close>

datatype ecost = Fin rat | PInf

instantiation ecost :: linorder
begin

fun less_eq_ecost :: "ecost \<Rightarrow> ecost \<Rightarrow> bool" where
  "less_eq_ecost (Fin a) (Fin b) = (a \<le> b)"
| "less_eq_ecost (Fin a) PInf = True"
| "less_eq_ecost PInf (Fin b) = False"
| "less_eq_ecost PInf PInf = True"

fun less_ecost :: "ecost \<Rightarrow> ecost \<Rightarrow> bool" where
  "less_ecost (Fin a) (Fin b) = (a < b)"
| "less_ecost (Fin a) PInf = True"
| "less_ecost PInf (Fin b) = False"
| "less_ecost PInf PInf = False"

instance
proof
  fix x y z :: ecost
  show "(x < y) = (x \<le> y \<and> \<not> y \<le> x)" by (cases x; cases y) auto
  show "x \<le> x" by (cases x) auto
  show "x \<le> y \<Longrightarrow> y \<le> z \<Longrightarrow> x \<le> z" by (cases x; cases y; cases z) auto
  show "x \<le> y \<Longrightarrow> y \<le> x \<Longrightarrow> x = y" by (cases x; cases y) auto
  show "x \<le> y \<or> y \<le> x" by (cases x; cases y) auto
qed

end

text \<open>\<open>best_cost * 2 / 3\<close>; \<open>inf * 2 / 3\<close> is \<open>inf\<close>.\<close>

fun two_thirds :: "ecost \<Rightarrow> ecost" where
  "two_thirds (Fin b) = Fin (b * 2 / 3)"
| "two_thirds PInf = PInf"

section \<open>Graph, label assignment, query\<close>

text \<open>
  The graph is used through three operations only: \<open>graph.nodes()\<close>,
  \<open>graph.neighbors(v)\<close> (both iterate in insertion order, hence lists) and
  \<open>graph[v][u].get("weight", 1.0)\<close>, where \<open>edge_weight\<close> is the \<open>"weight"\<close> attribute of
  the edge when it has one.
\<close>

record 'v graph =
  nodes :: "'v list"
  neighbors :: "'v \<Rightarrow> 'v list"
  edge_weight :: "'v \<Rightarrow> 'v \<Rightarrow> rat option"

definition weight :: "'v graph \<Rightarrow> 'v \<Rightarrow> 'v \<Rightarrow> rat" where
  "weight g v u = (case edge_weight g v u of None \<Rightarrow> 1 | Some w \<Rightarrow> w)"

text \<open>\<open>S.get(v, set())\<close>: a vertex missing from the label assignment carries no label.\<close>

definition S_get :: "('v \<rightharpoonup> 'l set) \<Rightarrow> 'v \<Rightarrow> 'l set" where
  "S_get S v = (case S v of None \<Rightarrow> {} | Some A \<Rightarrow> A)"

section \<open>The frontier: \<open>heapq\<close> on tuples\<close>

text \<open>
  A frontier entry is the tuple \<open>(cost, v, labels, path)\<close>. \<open>heapq\<close> compares entries with
  Python's \<open><\<close> on tuples: the first component at which the two tuples differ decides,
  by \<open><\<close> on that component. On frozensets \<open><\<close> is proper inclusion, on lists it is the
  lexicographic order.
\<close>

type_synonym ('v, 'l) entry = "rat \<times> 'v \<times> 'l set \<times> 'v list"

fun entry_lt :: "('v::linorder, 'l) entry \<Rightarrow> ('v, 'l) entry \<Rightarrow> bool" where
  "entry_lt (c1, v1, l1, p1) (c2, v2, l2, p2) =
     (if c1 \<noteq> c2 then c1 < c2
      else if v1 \<noteq> v2 then v1 < v2
      else if l1 \<noteq> l2 then l1 \<subset> l2
      else p1 < p2)"

text \<open>
  \<open>heapq._siftdown(heap, startpos, pos)\<close>: the item at \<open>pos\<close> moves towards the root
  while it is smaller than its parent.
\<close>

function siftdown_loop ::
  "('v::linorder, 'l) entry list \<Rightarrow> nat \<Rightarrow> nat \<Rightarrow> ('v, 'l) entry \<Rightarrow> ('v, 'l) entry list" where
  "siftdown_loop heap startpos pos newitem =
     (if pos > startpos then
        (let parentpos = (pos - 1) div 2;
             parent = heap ! parentpos
         in if entry_lt newitem parent
            then siftdown_loop (heap[pos := parent]) startpos parentpos newitem
            else heap[pos := newitem])
      else heap[pos := newitem])"
  by pat_completeness auto
termination
  by (relation "measure (\<lambda>(heap, startpos, pos, newitem). pos)") auto

declare siftdown_loop.simps [simp del]

definition siftdown :: "('v::linorder, 'l) entry list \<Rightarrow> nat \<Rightarrow> nat \<Rightarrow> ('v, 'l) entry list" where
  "siftdown heap startpos pos = siftdown_loop heap startpos pos (heap ! pos)"

text \<open>
  \<open>heapq._siftup(heap, pos)\<close>: the smaller child is moved up until a leaf is reached,
  then the item is put there and sifted down again.
\<close>

function siftup_loop ::
  "('v::linorder, 'l) entry list \<Rightarrow> nat \<Rightarrow> ('v, 'l) entry list \<times> nat" where
  "siftup_loop heap pos =
     (let endpos = length heap; childpos = 2 * pos + 1
      in if childpos < endpos then
           (let rightpos = childpos + 1;
                childpos' = (if rightpos < endpos \<and> \<not> entry_lt (heap ! childpos) (heap ! rightpos)
                             then rightpos else childpos)
            in siftup_loop (heap[pos := heap ! childpos']) childpos')
         else (heap, pos))"
  by pat_completeness auto
termination
  by (relation "measure (\<lambda>(heap, pos). length heap - pos)") (auto split: if_splits)

declare siftup_loop.simps [simp del]

definition siftup :: "('v::linorder, 'l) entry list \<Rightarrow> nat \<Rightarrow> ('v, 'l) entry list" where
  "siftup heap pos =
     (let newitem = heap ! pos;
          (heap', pos') = siftup_loop heap pos
      in siftdown_loop heap' pos pos' newitem)"

definition heappush :: "('v::linorder, 'l) entry list \<Rightarrow> ('v, 'l) entry \<Rightarrow> ('v, 'l) entry list" where
  "heappush heap item = siftdown (heap @ [item]) 0 (length heap)"

text \<open>
  \<open>heapq.heappop(heap)\<close>. Both searches call it only under \<open>while pq\<close>, so the
  \<open>IndexError\<close> of popping an empty heap cannot occur; the function is used on non-empty
  heaps only.
\<close>

definition heappop :: "('v::linorder, 'l) entry list \<Rightarrow> ('v, 'l) entry \<times> ('v, 'l) entry list" where
  "heappop heap =
     (let lastelt = last heap; heap' = butlast heap
      in if heap' \<noteq> [] then (heap' ! 0, siftup (heap'[0 := lastelt]) 0)
         else (lastelt, heap'))"

section \<open>Search state\<close>

text \<open>
  The visited table is a Python dict; \<open>pruned_dp\<close> iterates over its items, so it is an
  association list in insertion order (\<open>AList.update\<close> overwrites in place or appends).
\<close>

type_synonym ('v, 'l) vtable = "(('v \<times> 'l set) \<times> rat) list"

definition visited_get :: "('v, 'l) vtable \<Rightarrow> 'v \<times> 'l set \<Rightarrow> ecost" where
  "visited_get vis st = (case map_of vis st of None \<Rightarrow> PInf | Some c \<Rightarrow> Fin c)"

record ('v, 'l) search =
  best_cost :: ecost
  best_path :: "'v list"
  visited :: "('v, 'l) vtable"
  pq :: "('v, 'l) entry list"

section \<open>\<open>basic(graph, P, S)\<close>\<close>

text \<open>Body of the seeding loop \<open>for v in graph.nodes()\<close>.\<close>

definition basic_seed ::
  "'l set \<Rightarrow> ('v \<rightharpoonup> 'l set) \<Rightarrow> 'v::linorder \<Rightarrow>
   ('v, 'l) vtable \<times> ('v, 'l) entry list \<Rightarrow> ('v, 'l) vtable \<times> ('v, 'l) entry list" where
  "basic_seed P S v = (\<lambda>(vis, q).
     (let start_labels = S_get S v \<inter> P;
          state = (v, start_labels)
      in (AList.update state 0 vis, heappush q (0, v, snd state, [v]))))"

definition basic_init :: "'v::linorder graph \<Rightarrow> 'l set \<Rightarrow> ('v \<rightharpoonup> 'l set) \<Rightarrow> ('v, 'l) search" where
  "basic_init g P S =
     (let (vis, q) = fold (basic_seed P S) (nodes g) ([], [])
      in \<lparr>best_cost = PInf, best_path = [], visited = vis, pq = q\<rparr>)"

text \<open>Body of the relaxation loop \<open>for u in graph.neighbors(v)\<close>.\<close>

definition basic_relax ::
  "'v::linorder graph \<Rightarrow> 'l set \<Rightarrow> ('v \<rightharpoonup> 'l set) \<Rightarrow> ('v, 'l) entry \<Rightarrow> 'v \<Rightarrow>
   ('v, 'l) vtable \<times> ('v, 'l) entry list \<Rightarrow> ('v, 'l) vtable \<times> ('v, 'l) entry list" where
  "basic_relax g P S = (\<lambda>(cost, v, labels, path) u (vis, q).
     (let w = weight g v u;
          new_labels = labels \<union> (S_get S u \<inter> P);
          new_state = (u, new_labels);
          new_cost = cost + w
      in if Fin new_cost < visited_get vis new_state
         then (AList.update new_state new_cost vis,
               heappush q (new_cost, u, snd new_state, path @ [u]))
         else (vis, q)))"

text \<open>One iteration of \<open>while pq\<close>.\<close>

definition basic_step ::
  "'v::linorder graph \<Rightarrow> 'l set \<Rightarrow> ('v \<rightharpoonup> 'l set) \<Rightarrow> ('v, 'l) search \<Rightarrow> ('v, 'l) search" where
  "basic_step g P S s =
     (case heappop (pq s) of ((cost, v, labels, path), q) \<Rightarrow>
        if Some cost \<noteq> map_of (visited s) (v, labels) then s\<lparr>pq := q\<rparr>
        else if Fin cost \<ge> best_cost s then s\<lparr>pq := q\<rparr>
        else if P \<subseteq> labels then
          (if Fin cost < best_cost s
           then s\<lparr>best_cost := Fin cost, best_path := path, pq := q\<rparr>
           else s\<lparr>pq := q\<rparr>)
        else
          (let (vis', q') = fold (basic_relax g P S (cost, v, labels, path)) (neighbors g v)
                              (visited s, q)
           in s\<lparr>visited := vis', pq := q'\<rparr>))"

partial_function (option) basic_loop ::
  "'v::linorder graph \<Rightarrow> 'l set \<Rightarrow> ('v \<rightharpoonup> 'l set) \<Rightarrow> ('v, 'l) search \<Rightarrow> ('v, 'l) search option" where
  "basic_loop g P S s = (if pq s = [] then Some s else basic_loop g P S (basic_step g P S s))"

declare basic_loop.simps [code]

text \<open>The result is \<open>None\<close> exactly when the \<open>while\<close> loop does not terminate.\<close>

definition basic ::
  "'v::linorder graph \<Rightarrow> 'l set \<Rightarrow> ('v \<rightharpoonup> 'l set) \<Rightarrow> (ecost \<times> 'v list) option" where
  "basic g P S = map_option (\<lambda>s. (best_cost s, best_path s)) (basic_loop g P S (basic_init g P S))"

section \<open>\<open>pruned_dp(graph, P, S)\<close>\<close>

text \<open>
  The seeding loop iterates over the Python set \<open>S.get(v, set()) & P\<close>. The
  iteration order of a set is not determined by its elements, so the order is a
  parameter \<open>enum\<close> of the model: \<open>enum A\<close> lists the elements of \<open>A\<close> in the order the
  loop meets them.
\<close>

definition pruned_seed ::
  "'v::linorder \<Rightarrow> 'l \<Rightarrow>
   ('v, 'l) vtable \<times> ('v, 'l) entry list \<Rightarrow> ('v, 'l) vtable \<times> ('v, 'l) entry list" where
  "pruned_seed v lbl = (\<lambda>(vis, q).
     (let state = (v, {lbl})
      in if Fin 0 \<ge> visited_get vis state then (vis, q)
         else (AList.update state 0 vis, heappush q (0, v, snd state, [v]))))"

definition pruned_init ::
  "('l set \<Rightarrow> 'l list) \<Rightarrow> 'v::linorder graph \<Rightarrow> 'l set \<Rightarrow> ('v \<rightharpoonup> 'l set) \<Rightarrow> ('v, 'l) search" where
  "pruned_init enum g P S =
     (let (vis, q) = fold (\<lambda>v. fold (pruned_seed v) (enum (S_get S v \<inter> P))) (nodes g) ([], [])
      in \<lparr>best_cost = PInf, best_path = [], visited = vis, pq = q\<rparr>)"

text \<open>Body of \<open>for u in graph.neighbors(v)\<close>.\<close>

definition pruned_relax ::
  "'v::linorder graph \<Rightarrow> 'l set \<Rightarrow> ('v \<rightharpoonup> 'l set) \<Rightarrow> ecost \<Rightarrow> ('v, 'l) entry \<Rightarrow> 'v \<Rightarrow>
   ('v, 'l) vtable \<times> ('v, 'l) entry list \<Rightarrow> ('v, 'l) vtable \<times> ('v, 'l) entry list" where
  "pruned_relax g P S best = (\<lambda>(cost, v, labels, path) u (vis, q).
     (let w = weight g v u;
          new_cost = cost + w
      in if Fin new_cost \<ge> best then (vis, q)
         else
           (let new_labels = labels \<union> (S_get S u \<inter> P);
                new_state = (u, new_labels)
            in if Fin new_cost < visited_get vis new_state
               then (AList.update new_state new_cost vis,
                     heappush q (new_cost, u, snd new_state, path @ [u]))
               else (vis, q))))"

text \<open>Body of the merge loop \<open>for (vv, lbls), c in list(visited.items())\<close>.\<close>

definition pruned_merge ::
  "'l set \<Rightarrow> ecost \<Rightarrow> ('v::linorder, 'l) entry \<Rightarrow> ('v \<times> 'l set) \<times> rat \<Rightarrow>
   ('v, 'l) vtable \<times> ('v, 'l) entry list \<Rightarrow> ('v, 'l) vtable \<times> ('v, 'l) entry list" where
  "pruned_merge P best = (\<lambda>(cost, v, labels, path) ((vv, lbls), c) (vis, q).
     (let remaining = P - labels
      in if vv \<noteq> v then (vis, q)
         else if \<not> lbls \<subseteq> remaining \<or> lbls = {} then (vis, q)
         else
           (let new_labels = labels \<union> lbls;
                new_cost = cost + c;
                key = (v, new_labels)
            in if Fin new_cost \<le> two_thirds best \<and> Fin new_cost < visited_get vis key
               then (AList.update key new_cost vis, heappush q (new_cost, v, snd key, path))
               else (vis, q))))"

text \<open>
  Expansion of a popped state: the neighbour loop, then the merge loop over a snapshot
  of the visited table taken after the neighbour loop.
\<close>

definition pruned_expand ::
  "'v::linorder graph \<Rightarrow> 'l set \<Rightarrow> ('v \<rightharpoonup> 'l set) \<Rightarrow> ecost \<Rightarrow> ('v, 'l) entry \<Rightarrow>
   ('v, 'l) vtable \<times> ('v, 'l) entry list \<Rightarrow> ('v, 'l) vtable \<times> ('v, 'l) entry list" where
  "pruned_expand g P S best e vq =
     (let vq1 = fold (pruned_relax g P S best e) (neighbors g (fst (snd e))) vq
      in fold (pruned_merge P best e) (fst vq1) vq1)"

definition pruned_step ::
  "'v::linorder graph \<Rightarrow> 'l set \<Rightarrow> ('v \<rightharpoonup> 'l set) \<Rightarrow> ('v, 'l) search \<Rightarrow> ('v, 'l) search" where
  "pruned_step g P S s =
     (case heappop (pq s) of ((cost, v, labels, path), q) \<Rightarrow>
        if Some cost \<noteq> map_of (visited s) (v, labels) then s\<lparr>pq := q\<rparr>
        else if Fin cost \<ge> best_cost s then s\<lparr>pq := q\<rparr>
        else if P \<subseteq> labels then
          (if Fin cost < best_cost s
           then s\<lparr>best_cost := Fin cost, best_path := path, pq := q\<rparr>
           else s\<lparr>pq := q\<rparr>)
        else if Fin cost > two_thirds (best_cost s) then s\<lparr>pq := q\<rparr>
        else
          (let (vis', q') = pruned_expand g P S (best_cost s) (cost, v, labels, path) (visited s, q)
           in s\<lparr>visited := vis', pq := q'\<rparr>))"

partial_function (option) pruned_loop ::
  "'v::linorder graph \<Rightarrow> 'l set \<Rightarrow> ('v \<rightharpoonup> 'l set) \<Rightarrow> ('v, 'l) search \<Rightarrow> ('v, 'l) search option" where
  "pruned_loop g P S s = (if pq s = [] then Some s else pruned_loop g P S (pruned_step g P S s))"

declare pruned_loop.simps [code]

definition pruned_dp ::
  "('l set \<Rightarrow> 'l list) \<Rightarrow> 'v::linorder graph \<Rightarrow> 'l set \<Rightarrow> ('v \<rightharpoonup> 'l set) \<Rightarrow>
   (ecost \<times> 'v list) option" where
  "pruned_dp enum g P S =
     map_option (\<lambda>s. (best_cost s, best_path s)) (pruned_loop g P S (pruned_init enum g P S))"

section \<open>Building graphs: the fallback \<open>Graph\<close> class\<close>

text \<open>
  \<open>Graph.__init__\<close>, \<open>g._adj.setdefault(v, {})\<close> (used by \<open>generate_graph\<close>) and
  \<open>Graph.add_edge\<close>, which stores the weight in both directions.
\<close>

definition empty_graph :: "'v graph" where
  "empty_graph = \<lparr>nodes = [], neighbors = (\<lambda>_. []), edge_weight = (\<lambda>_ _. None)\<rparr>"

definition add_node :: "'v \<Rightarrow> 'v graph \<Rightarrow> 'v graph" where
  "add_node v g = g\<lparr>nodes := (if v \<in> set (nodes g) then nodes g else nodes g @ [v])\<rparr>"

text \<open>\<open>self._adj[u][v] = {"weight": weight}\<close> on a \<open>defaultdict\<close>.\<close>

definition half_edge :: "'v \<Rightarrow> 'v \<Rightarrow> rat \<Rightarrow> 'v graph \<Rightarrow> 'v graph" where
  "half_edge u v w g =
     g\<lparr>nodes := (if u \<in> set (nodes g) then nodes g else nodes g @ [u]),
       neighbors := (neighbors g)
         (u := (if v \<in> set (neighbors g u) then neighbors g u else neighbors g u @ [v])),
       edge_weight := (edge_weight g)(u := (edge_weight g u)(v \<mapsto> w))\<rparr>"

definition add_edge :: "'v \<Rightarrow> 'v \<Rightarrow> rat \<Rightarrow> 'v graph \<Rightarrow> 'v graph" where
  "add_edge u v w g = half_edge v u w (half_edge u v w g)"

section \<open>Walks, their cost and the labels they collect\<close>

text \<open>
  A walk starts at a vertex of the graph and moves along edges; its cost is the sum of
  the weights of its consecutive edges; it collects \<open>S(v) \<inter> P\<close> at every vertex.
\<close>

fun steps :: "'v list \<Rightarrow> ('v \<times> 'v) list" where
  "steps (a # b # p) = (a, b) # steps (b # p)"
| "steps p = []"

definition walk :: "'v graph \<Rightarrow> 'v list \<Rightarrow> bool" where
  "walk g p \<longleftrightarrow> p \<noteq> [] \<and> hd p \<in> set (nodes g) \<and>
     (\<forall>(a, b) \<in> set (steps p). b \<in> set (neighbors g a))"

definition walk_cost :: "'v graph \<Rightarrow> 'v list \<Rightarrow> rat" where
  "walk_cost g p = (\<Sum>(a, b) \<leftarrow> steps p. weight g a b)"

definition collected :: "'l set \<Rightarrow> ('v \<rightharpoonup> 'l set) \<Rightarrow> 'v list \<Rightarrow> 'l set" where
  "collected P S p = (\<Union>v \<in> set p. S_get S v \<inter> P)"

definition covering_walk :: "'v graph \<Rightarrow> 'l set \<Rightarrow> ('v \<rightharpoonup> 'l set) \<Rightarrow> 'v list \<Rightarrow> bool" where
  "covering_walk g P S p \<longleftrightarrow> walk g p \<and> collected P S p = P"

text \<open>Properties of the input graph named in the data model.\<close>

definition nonneg_weights :: "'v graph \<Rightarrow> bool" where
  "nonneg_weights g \<longleftrightarrow> (\<forall>v u. u \<in> set (neighbors g v) \<longrightarrow> 0 \<le> weight g v u)"

definition positive_weights :: "'v graph \<Rightarrow> bool" where
  "positive_weights g \<longleftrightarrow> (\<forall>v u. u \<in> set (neighbors g v) \<longrightarrow> 0 < weight g v u)"

definition undirected :: "'v graph \<Rightarrow> bool" where
  "undirected g \<longleftrightarrow> (\<forall>v u. u \<in> set (neighbors g v) \<longrightarrow>
     v \<in> set (neighbors g u) \<and> weight g u v = weight g v u)"

text \<open>\<open>graph.nodes()\<close> lists every vertex once, and every neighbour is a vertex.\<close>

definition graph_ok :: "'v graph \<Rightarrow> bool" where
  "graph_ok g \<longleftrightarrow> distinct (nodes g) \<and>
     (\<forall>v u. u \<in> set (neighbors g v) \<longrightarrow> v \<in> set (nodes g) \<and> u \<in> set (nodes g))"

section \<open>Example inputs\<close>

text \<open>A star: centre 0, leaves 1, 2, 3 with one label each, all edges of weight 1.\<close>

definition star :: "nat graph" where
  "star = add_edge 0 3 1 (add_edge 0 2 1 (add_edge 0 1 1 empty_graph))"

definition star_labels :: "nat \<rightharpoonup> nat set" where
  "star_labels = [1 \<mapsto> {1}, 2 \<mapsto> {2}, 3 \<mapsto> {3}]"

text \<open>
  An edge of weight 0 between vertices 0 and 1, which carry one label each, and an
  isolated vertex 2 that carries both labels.
\<close>

definition zero_edge_graph :: "nat graph" where
  "zero_edge_graph = add_node 2 (add_edge 0 1 0 empty_graph)"

definition zero_edge_labels :: "nat \<rightharpoonup> nat set" where
  "zero_edge_labels = [0 \<mapsto> {0}, 1 \<mapsto> {1}, 2 \<mapsto> {0, 1}]"

text \<open>The triangle of the specification: A = 0, B = 1, C = 2; x = 0, y = 1.\<close>

definition triangle :: "nat graph" where
  "triangle = add_edge 0 2 10 (add_edge 1 2 3 (add_edge 0 1 2 empty_graph))"

definition triangle_labels :: "nat \<rightharpoonup> nat set" where
  "triangle_labels = [0 \<mapsto> {0}, 1 \<mapsto> {1}, 2 \<mapsto> {}]"

text \<open>A search state in which the only frontier entry lies above two thirds of the best cost.\<close>

definition skip_state :: "(nat, nat) search" where
  "skip_state = \<lparr>best_cost = Fin 3, best_path = [0, 1], visited = [((1, {1}), 5 / 2)],
     pq = [(5 / 2, 1, {1}, [2, 1])]\<rparr>"

text \<open>The child that \<open>_siftup\<close> moves up from position \<open>pos\<close>.\<close>

definition pick_child :: "('v::linorder, 'l) entry list \<Rightarrow> nat \<Rightarrow> nat" where
  "pick_child heap pos =
     (if 2 * pos + 2 < length heap \<and> \<not> entry_lt (heap ! (2 * pos + 1)) (heap ! (2 * pos + 2))
      then 2 * pos + 2 else 2 * pos + 1)"

section \<open>Invariant of the exact search\<close>

text \<open>
  A frontier entry \<open>(c, v, L, p)\<close> is sound when \<open>p\<close> is a walk that ends in \<open>v\<close>, costs
  \<open>c\<close> and collects exactly \<open>L\<close>; the best solution is either the initial \<open>(inf, [])\<close> or
  a walk of the recorded cost that collects all of \<open>P\<close>.
\<close>

definition entry_ok :: "'v graph \<Rightarrow> 'l set \<Rightarrow> ('v \<rightharpoonup> 'l set) \<Rightarrow> ('v, 'l) entry \<Rightarrow> bool" where
  "entry_ok g P S = (\<lambda>(c, v, L, p). walk g p \<and> last p = v \<and> walk_cost g p = c \<and> L = collected P S p)"

definition best_ok :: "'v graph \<Rightarrow> 'l set \<Rightarrow> ('v \<rightharpoonup> 'l set) \<Rightarrow> ('v, 'l) search \<Rightarrow> bool" where
  "best_ok g P S s \<longleftrightarrow> (best_cost s = PInf \<and> best_path s = []) \<or>
     (walk g (best_path s) \<and> best_cost s = Fin (walk_cost g (best_path s)) \<and>
      collected P S (best_path s) = P)"

definition basic_inv :: "'v graph \<Rightarrow> 'l set \<Rightarrow> ('v \<rightharpoonup> 'l set) \<Rightarrow> ('v, 'l) search \<Rightarrow> bool" where
  "basic_inv g P S s \<longleftrightarrow> (\<forall>e\<in>set (pq s). entry_ok g P S e) \<and> best_ok g P S s"

section \<open>Writes to the visited table\<close>

text \<open>
  \<open>write_lower vis vis'\<close>: the table is unchanged, or one key was written with a cost
  strictly below the cost it had (\<open>inf\<close> when it had none).
\<close>

definition write_lower :: "('v, 'l) vtable \<Rightarrow> ('v, 'l) vtable \<Rightarrow> bool" where
  "write_lower vis vis' \<longleftrightarrow>
     vis' = vis \<or> (\<exists>k c. vis' = AList.update k c vis \<and> Fin c < visited_get vis k)"

definition nonneg_vq :: "('v, 'l) vtable \<times> ('v, 'l) entry list \<Rightarrow> bool" where
  "nonneg_vq = (\<lambda>(vis, q). (\<forall>e\<in>set q. 0 \<le> fst e) \<and> (\<forall>kc\<in>set vis. 0 \<le> snd kc))"

definition nonneg_state :: "('v, 'l) search \<Rightarrow> bool" where
  "nonneg_state s \<longleftrightarrow> nonneg_vq (visited s, pq s) \<and> Fin 0 \<le> best_cost s"

section \<open>Heap order on costs\<close>

text \<open>
  The order \<open>entry_lt\<close> is not total (two label sets may be incomparable), but it
  refines the order on costs. \<open>cost_heap\<close> is the heap property read on costs only;
  \<open>hole_heap\<close> and \<open>up_heap\<close> are the loop invariants of \<open>_siftdown\<close> and \<open>_siftup\<close>.
\<close>

definition cost_heap :: "('v, 'l) entry list \<Rightarrow> bool" where
  "cost_heap h \<longleftrightarrow> (\<forall>i. 0 < i \<and> i < length h \<longrightarrow> fst (h ! ((i - 1) div 2)) \<le> fst (h ! i))"

definition hole_heap :: "('v, 'l) entry list \<Rightarrow> nat \<Rightarrow> ('v, 'l) entry \<Rightarrow> bool" where
  "hole_heap h pos x \<longleftrightarrow>
     (\<forall>i. 0 < i \<and> i < length h \<and> i \<noteq> pos \<longrightarrow>
        fst ((h[pos := x]) ! ((i - 1) div 2)) \<le> fst ((h[pos := x]) ! i)) \<and>
     (0 < pos \<longrightarrow> (\<forall>i. 0 < i \<and> i < length h \<and> (i - 1) div 2 = pos \<longrightarrow>
        fst (h ! ((pos - 1) div 2)) \<le> fst (h ! i)))"

definition up_heap :: "('v, 'l) entry list \<Rightarrow> nat \<Rightarrow> bool" where
  "up_heap h pos \<longleftrightarrow>
     (\<forall>i. 0 < i \<and> i < length h \<and> (i - 1) div 2 \<noteq> pos \<longrightarrow> fst (h ! ((i - 1) div 2)) \<le> fst (h ! i)) \<and>
     (0 < pos \<longrightarrow> (\<forall>i. 0 < i \<and> i < length h \<and> (i - 1) div 2 = pos \<longrightarrow>
        fst (h ! ((pos - 1) div 2)) \<le> fst (h ! i)))"

section \<open>Invariants of the exact search\<close>

text \<open>
  The state \<open>(v, labels)\<close> of a queue entry; \<open>has_entry q k d\<close>: the queue holds an entry
  for state \<open>k\<close> with cost \<open>d\<close>. A visited state is closed when the queue holds no entry
  with its recorded cost.
\<close>

definition key_of :: "('v, 'l) entry \<Rightarrow> 'v \<times> 'l set" where
  "key_of e = (fst (snd e), fst (snd (snd e)))"

definition has_entry :: "('v, 'l) entry list \<Rightarrow> 'v \<times> 'l set \<Rightarrow> rat \<Rightarrow> bool" where
  "has_entry q k d \<longleftrightarrow> (\<exists>e\<in>set q. key_of e = k \<and> fst e = d)"

definition closed_state :: "('v, 'l) vtable \<Rightarrow> ('v, 'l) entry list \<Rightarrow> 'v \<times> 'l set \<Rightarrow> bool" where
  "closed_state vis q k \<longleftrightarrow> (\<exists>d. map_of vis k = Some d \<and> \<not> has_entry q k d)"

text \<open>
  A closed state has been dealt with: either the best cost is already no larger than its
  cost, or it does not cover the query and each of its neighbours has been relaxed.
\<close>

definition settled ::
  "'v graph \<Rightarrow> 'l set \<Rightarrow> ('v \<rightharpoonup> 'l set) \<Rightarrow> ecost \<Rightarrow> ('v, 'l) vtable \<Rightarrow> 'v \<times> 'l set \<Rightarrow> rat \<Rightarrow> bool" where
  "settled g P S best vis k d \<longleftrightarrow> best \<le> Fin d \<or>
     (\<not> P \<subseteq> snd k \<and>
      (\<forall>u\<in>set (neighbors g (fst k)).
         visited_get vis (u, snd k \<union> (S_get S u \<inter> P)) \<le> Fin (d + weight g (fst k) u)))"

definition comp_inv :: "'v graph \<Rightarrow> 'l set \<Rightarrow> ('v \<rightharpoonup> 'l set) \<Rightarrow> ('v, 'l) search \<Rightarrow> bool" where
  "comp_inv g P S s \<longleftrightarrow>
     (\<forall>k d. map_of (visited s) k = Some d \<and> \<not> has_entry (pq s) k d \<longrightarrow>
        settled g P S (best_cost s) (visited s) k d) \<and>
     (\<forall>v\<in>set (nodes g). visited_get (visited s) (v, S_get S v \<inter> P) \<le> Fin 0)"

text \<open>What the relaxation loop of \<open>basic\<close> leaves behind.\<close>

definition relaxed ::
  "'v graph \<Rightarrow> 'l set \<Rightarrow> ('v \<rightharpoonup> 'l set) \<Rightarrow> ('v, 'l) entry \<Rightarrow> 'v list \<Rightarrow>
   ('v, 'l) vtable \<times> ('v, 'l) entry list \<Rightarrow> ('v, 'l) vtable \<times> ('v, 'l) entry list \<Rightarrow> bool" where
  "relaxed g P S e us = (\<lambda>(vis, q) (vis', q').
     (\<forall>k d. has_entry q k d \<longrightarrow> has_entry q' k d) \<and>
     (\<forall>k. visited_get vis' k \<le> visited_get vis k) \<and>
     (\<forall>k d. map_of vis' k = Some d \<longrightarrow> map_of vis k = Some d \<or> has_entry q' k d) \<and>
     (\<forall>u\<in>set us. visited_get vis' (u, fst (snd (snd e)) \<union> (S_get S u \<inter> P))
         \<le> Fin (fst e + weight g (fst (snd e)) u)))"

section \<open>The heap keeps its entries\<close>

lemma entry_lt_cost: "entry_lt a b \<Longrightarrow> fst a \<le> fst b"
  by (cases a; cases b) (auto split: if_splits)

lemma not_entry_lt_cost: "\<not> entry_lt a b \<Longrightarrow> fst b \<le> fst a"
  by (cases a; cases b) (auto split: if_splits)

lemma siftdown_loop_stop:
  "\<not> (pos > startpos \<and> entry_lt newitem (heap ! ((pos - 1) div 2))) \<Longrightarrow>
   siftdown_loop heap startpos pos newitem = heap[pos := newitem]"
  by (subst siftdown_loop.simps) (auto simp: Let_def)

lemma siftdown_loop_go:
  "pos > startpos \<Longrightarrow> entry_lt newitem (heap ! ((pos - 1) div 2)) \<Longrightarrow>
   siftdown_loop heap startpos pos newitem =
   siftdown_loop (heap[pos := heap ! ((pos - 1) div 2)]) startpos ((pos - 1) div 2) newitem"
  by (subst siftdown_loop.simps) (simp add: Let_def)

lemma siftdown_loop_mset:
  "pos < length heap \<Longrightarrow> mset (siftdown_loop heap startpos pos x) = mset (heap[pos := x])"
proof (induction pos arbitrary: heap rule: less_induct)
  case (less pos)
  let ?pp = "(pos - 1) div 2"
  show ?case
  proof (cases "pos > startpos \<and> entry_lt x (heap ! ?pp)")
    case True
    then have pp: "?pp < pos" "?pp < length heap" using less.prems by auto
    have e: "heap[pos := heap ! ?pp, ?pp := x] =
             (heap[pos := x])[?pp := (heap[pos := x]) ! pos, pos := (heap[pos := x]) ! ?pp]"
      using pp less.prems by (intro nth_equalityI) (auto simp: nth_list_update)
    have "mset (siftdown_loop heap startpos pos x)
          = mset (siftdown_loop (heap[pos := heap ! ?pp]) startpos ?pp x)"
      using True by (simp add: siftdown_loop_go)
    also have "\<dots> = mset (heap[pos := heap ! ?pp, ?pp := x])"
      using less.IH[of ?pp "heap[pos := heap ! ?pp]"] pp by simp
    also have "\<dots> = mset (heap[pos := x])"
      unfolding e using mset_swap[of pos "heap[pos := x]" ?pp] pp less.prems by simp
    finally show ?thesis .
  next
    case False
    then show ?thesis by (simp add: siftdown_loop_stop)
  qed
qed

lemma siftdown_loop_length:
  "length (siftdown_loop heap startpos pos x) = length heap"
proof (induction pos arbitrary: heap rule: less_induct)
  case (less pos)
  let ?pp = "(pos - 1) div 2"
  show ?case
  proof (cases "pos > startpos \<and> entry_lt x (heap ! ?pp)")
    case True
    then have pp: "?pp < pos" by auto
    show ?thesis using True less.IH[OF pp, of "heap[pos := heap ! ?pp]"]
      by (simp add: siftdown_loop_go)
  next
    case False
    then show ?thesis by (simp add: siftdown_loop_stop)
  qed
qed

lemma siftup_loop_stop:
  "\<not> 2 * pos + 1 < length heap \<Longrightarrow> siftup_loop heap pos = (heap, pos)"
  by (subst siftup_loop.simps) (simp add: Let_def)

lemma siftup_loop_go:
  "2 * pos + 1 < length heap \<Longrightarrow>
   siftup_loop heap pos = siftup_loop (heap[pos := heap ! pick_child heap pos]) (pick_child heap pos)"
  by (subst siftup_loop.simps) (simp add: Let_def pick_child_def)

lemma pick_child_cases:
  "pick_child heap pos = 2 * pos + 1 \<or> (pick_child heap pos = 2 * pos + 2 \<and> 2 * pos + 2 < length heap)"
  by (auto simp: pick_child_def)

lemma siftup_loop_props:
  "pos < length heap \<Longrightarrow> siftup_loop heap pos = (heap', pos') \<Longrightarrow>
   length heap' = length heap \<and> pos' < length heap \<and> \<not> 2 * pos' + 1 < length heap \<and>
   mset (heap'[pos' := x]) = mset (heap[pos := x])"
proof (induction "length heap - pos" arbitrary: heap pos rule: less_induct)
  case less
  show ?case
  proof (cases "2 * pos + 1 < length heap")
    case False
    with less.prems show ?thesis by (simp add: siftup_loop_stop)
  next
    case True
    let ?c = "pick_child heap pos"
    let ?h = "heap[pos := heap ! ?c]"
    have c: "?c < length heap" "pos < ?c" using pick_child_cases[of heap pos] True by auto
    have run: "siftup_loop ?h ?c = (heap', pos')"
      using less.prems True by (simp add: siftup_loop_go)
    have ih: "length heap' = length ?h \<and> pos' < length ?h \<and> \<not> 2 * pos' + 1 < length ?h \<and>
              mset (heap'[pos' := x]) = mset (?h[?c := x])"
      using less.hyps[of ?h ?c] c run by simp
    have e: "?h[?c := x] = (heap[pos := x])[?c := (heap[pos := x]) ! pos, pos := (heap[pos := x]) ! ?c]"
      using c less.prems by (intro nth_equalityI) (auto simp: nth_list_update)
    have "mset (?h[?c := x]) = mset (heap[pos := x])"
      unfolding e using mset_swap[of pos "heap[pos := x]" ?c] c less.prems by simp
    with ih show ?thesis by simp
  qed
qed

lemma heappush_mset: "mset (heappush heap item) = add_mset item (mset heap)"
  by (simp add: heappush_def siftdown_def siftdown_loop_mset)

lemma heappush_length: "length (heappush heap item) = Suc (length heap)"
  by (simp add: heappush_def siftdown_def siftdown_loop_length)

lemma heappop_mset:
  assumes "heap \<noteq> []" "heappop heap = (e, heap')"
  shows "mset heap = add_mset e (mset heap')"
proof (cases "butlast heap = []")
  case True
  with assms have "heap = [e]" "heap' = []"
    by (auto simp: heappop_def Let_def) (metis append_butlast_last_id append_Nil)+
  then show ?thesis by simp
next
  case False
  let ?bl = "butlast heap"
  let ?h0 = "?bl[0 := last heap]"
  obtain h1 p1 where run: "siftup_loop ?h0 0 = (h1, p1)" by (cases "siftup_loop ?h0 0")
  have len: "0 < length ?h0" using False unfolding length_list_update length_greater_0_conv .
  from siftup_loop_props[OF len run, of "?h0 ! 0"]
  have p: "length h1 = length ?h0" "p1 < length ?h0" "mset (h1[p1 := ?h0 ! 0]) = mset ?h0"
    by simp_all
  have e: "e = ?bl ! 0" and h': "heap' = siftdown_loop h1 0 p1 (?h0 ! 0)"
    using assms False run by (auto simp: heappop_def Let_def siftup_def)
  have "mset heap' = mset ?h0" using p by (simp add: h' siftdown_loop_mset)
  also have "\<dots> = add_mset (last heap) (mset ?bl - {#?bl ! 0#})"
    using len unfolding length_list_update by (rule mset_update)
  finally have "add_mset e (mset heap') = add_mset (last heap) (mset ?bl)"
    using len e unfolding length_list_update by (simp add: nth_mem)
  also have "\<dots> = mset (?bl @ [last heap])" by simp
  also have "\<dots> = mset heap" using assms(1) by simp
  finally show ?thesis by simp
qed

section \<open>Pruning and merging in \<open>pruned_dp\<close>\<close>

lemma pruned_merge_push:
  assumes "pruned_merge P best (cost, v, labels, path) ((vv, lbls), c) (vis, q) = (vis', q')"
  shows "(vis' = vis \<and> q' = q) \<or>
         (vv = v \<and> mset q' = add_mset (cost + c, v, labels \<union> lbls, path) (mset q))"
  using assms by (auto simp: pruned_merge_def Let_def heappush_mset split: if_splits)

text \<open>
  C9. Every entry that the merge loop of an expanding state \<open>(cost, v, labels, path)\<close> adds
  to the frontier is a combined state \<open>(cost + c, v, labels \<union> lbls, path)\<close> for a visited
  item \<open>((v, lbls), c)\<close>: it carries the path of the expanding state unchanged.
\<close>

theorem merge_keeps_expanding_path:
  "fold (pruned_merge P best (cost, v, labels, path)) items (vis, q) = (vis', q') \<Longrightarrow>
   \<exists>new. mset q' = mset q + mset new \<and>
     (\<forall>e\<in>set new. \<exists>lbls c. ((v, lbls), c) \<in> set items \<and> e = (cost + c, v, labels \<union> lbls, path))"
proof (induction items arbitrary: vis q)
  case Nil
  then show ?case by (auto intro: exI[of _ "[]"])
next
  case (Cons it items)
  obtain vv lbls c where it: "it = ((vv, lbls), c)" by (cases it) auto
  obtain vis1 q1 where s1: "pruned_merge P best (cost, v, labels, path) it (vis, q) = (vis1, q1)"
    by (cases "pruned_merge P best (cost, v, labels, path) it (vis, q)")
  with Cons.prems have "fold (pruned_merge P best (cost, v, labels, path)) items (vis1, q1) = (vis', q')"
    by simp
  from Cons.IH[OF this] obtain new where
    new: "mset q' = mset q1 + mset new"
      "\<forall>e\<in>set new. \<exists>lbls c. ((v, lbls), c) \<in> set items \<and> e = (cost + c, v, labels \<union> lbls, path)"
    by blast
  from pruned_merge_push[OF s1[unfolded it]]
  show ?case
  proof
    assume "vis1 = vis \<and> q1 = q"
    with new show ?thesis by (intro exI[of _ new] conjI) (simp, fastforce)
  next
    assume a: "vv = v \<and> mset q1 = add_mset (cost + c, v, labels \<union> lbls, path) (mset q)"
    show ?thesis
      using new a it
      by (intro exI[of _ "(cost + c, v, labels \<union> lbls, path) # new"] conjI) (simp, fastforce)
  qed
qed

theorem merge_keeps_expanding_path_witness:
  "fold (pruned_merge {1, 2} PInf (1, 0, {1}, [1, 0])) [((0::nat, {2::nat}), 1)]
      ([((0, {2}), 1)], []) = ([((0, {2}), 1), ((0, {1, 2}), 2)], [(2, 0, {1, 2}, [1, 0])]) \<and>
   (\<exists>new. mset [(2::rat, 0::nat, {1, 2::nat}, [1, 0::nat])] = mset [] + mset new \<and>
     (\<forall>e\<in>set new. \<exists>lbls c. ((0::nat, lbls), c) \<in> set [((0, {2::nat}), 1::rat)] \<and>
        e = (1 + c, 0, {1} \<union> lbls, [1, 0])))"
proof -
  have run: "fold (pruned_merge {1, 2} PInf (1, 0, {1}, [1, 0])) [((0::nat, {2::nat}), 1)]
      ([((0, {2}), 1)], []) = ([((0, {2}), 1), ((0, {1, 2}), 2)], [(2, 0, {1, 2}, [1, 0])])"
    by code_simp
  show ?thesis
  proof (rule conjI)
    show "fold (pruned_merge {1, 2} PInf (1, 0, {1}, [1, 0])) [((0::nat, {2::nat}), 1)]
      ([((0, {2}), 1)], []) = ([((0, {2}), 1), ((0, {1, 2}), 2)], [(2, 0, {1, 2}, [1, 0])])"
      by (rule run)
  next
    show "\<exists>new. mset [(2::rat, 0::nat, {1, 2::nat}, [1, 0::nat])] = mset [] + mset new \<and>
     (\<forall>e\<in>set new. \<exists>lbls c. ((0::nat, lbls), c) \<in> set [((0, {2::nat}), 1::rat)] \<and>
        e = (1 + c, 0, {1} \<union> lbls, [1, 0]))"
      by (rule merge_keeps_expanding_path[OF run])
  qed
qed

text \<open>
  C8. A popped state whose cost exceeds \<open>best_cost * 2 / 3\<close> is not expanded: the
  iteration changes no visited entry and pushes nothing, the frontier is what \<open>heappop\<close>
  left.
\<close>

theorem pruned_skips_above_two_thirds:
  assumes "Fin cost > two_thirds (best_cost s)"
    and "heappop (pq s) = ((cost, v, labels, path), q)"
  shows "visited (pruned_step g P S s) = visited s \<and> pq (pruned_step g P S s) = q"
  using assms by (simp add: pruned_step_def)

theorem pruned_skips_above_two_thirds_witness:
  "Fin (5 / 2) > two_thirds (best_cost skip_state) \<and>
   heappop (pq skip_state) = ((5 / 2, 1, {1}, [2, 1]), []) \<and>
   visited (pruned_step triangle {1, 2} triangle_labels skip_state) = visited skip_state \<and>
   pq (pruned_step triangle {1, 2} triangle_labels skip_state) = []"
proof -
  have a: "Fin (5 / 2) > two_thirds (best_cost skip_state)"
    by (simp add: skip_state_def)
  have b: "heappop (pq skip_state) = ((5 / 2, 1, {1}, [2, 1]), [])"
    by (simp add: skip_state_def heappop_def)
  have c: "visited (pruned_step triangle {1, 2} triangle_labels skip_state) = visited skip_state \<and>
      pq (pruned_step triangle {1, 2} triangle_labels skip_state) = []"
    by (rule pruned_skips_above_two_thirds[OF a b])
  show ?thesis
    by (rule conjI[OF a conjI[OF b c]])
qed

text \<open>
  C3. With the empty query \<open>basic\<close> returns cost 0 and a one-vertex path, but \<open>pruned_dp\<close>
  seeds one state per label of \<open>S(v) \<inter> P\<close>, hence none: on the graph with the single
  vertex 0 it returns \<open>(inf, [])\<close>.
\<close>

theorem empty_query_pruned_returns_inf:
  "pruned_dp sorted_list_of_set (add_node (0::nat) empty_graph) ({}::nat set) Map.empty
     = Some (PInf, []) \<and>
   basic (add_node (0::nat) empty_graph) ({}::nat set) Map.empty = Some (Fin 0, [0])"
  by code_simp

section \<open>Soundness of the exact search\<close>

lemma heappush_set: "set (heappush q e) = insert e (set q)"
  using heappush_mset[of q e] by (metis set_mset_add_mset_insert set_mset_mset)

lemma heappop_set:
  assumes "q \<noteq> []" "heappop q = (e, q')"
  shows "set q = insert e (set q')"
  using heappop_mset[OF assms] by (metis set_mset_add_mset_insert set_mset_mset)

lemma steps_snoc: "p \<noteq> [] \<Longrightarrow> steps (p @ [u]) = steps p @ [(last p, u)]"
  by (induction p rule: steps.induct) auto

lemma walk_snoc:
  "walk g p \<Longrightarrow> u \<in> set (neighbors g (last p)) \<Longrightarrow> walk g (p @ [u])"
  by (auto simp: walk_def steps_snoc)

lemma walk_cost_snoc:
  "p \<noteq> [] \<Longrightarrow> walk_cost g (p @ [u]) = walk_cost g p + weight g (last p) u"
  by (simp add: walk_cost_def steps_snoc)

lemma collected_snoc: "collected P S (p @ [u]) = collected P S p \<union> (S_get S u \<inter> P)"
  by (auto simp: collected_def)

lemma collected_subset: "collected P S p \<subseteq> P"
  by (auto simp: collected_def)


lemma basic_loop_rule:
  assumes "basic_loop g P S s = Some s'" and "I s"
    and "\<And>s. I s \<Longrightarrow> pq s \<noteq> [] \<Longrightarrow> I (basic_step g P S s)"
  shows "I s' \<and> pq s' = []"
proof -
  let ?Q = "\<lambda>x y. case x of (((g', P'), S'), s0) \<Rightarrow>
              (g' = g \<and> P' = P \<and> S' = S \<longrightarrow> I s0 \<longrightarrow> I y \<and> pq y = [])"
  have "?Q (((g, P), S), s) s'"
  proof (rule basic_loop.raw_induct[where Pa = ?Q, OF _ assms(1)], goal_cases)
    case (1 f g' P' S' s0 y)
    show ?case
    proof (cases "pq s0 = []")
      case True
      with 1(2) show ?thesis by auto
    next
      case False
      with 1(2) have "f g' P' S' (basic_step g' P' S' s0) = Some y" by simp
      from 1(1)[OF this] show ?thesis using False assms(3) by auto
    qed
  qed
  with assms(2) show ?thesis by simp
qed

lemma basic_relax_fold_pq:
  "fold (basic_relax g P S (c, v, L, p)) us (vis, q) = (vis', q') \<Longrightarrow>
   set q' \<subseteq> set q \<union> {(c + weight g v u, u, L \<union> (S_get S u \<inter> P), p @ [u]) | u. u \<in> set us}"
proof (induction us arbitrary: vis q)
  case Nil
  then show ?case by simp
next
  case (Cons u us)
  obtain vis1 q1 where s1: "basic_relax g P S (c, v, L, p) u (vis, q) = (vis1, q1)"
    by (cases "basic_relax g P S (c, v, L, p) u (vis, q)")
  then have q1: "set q1 \<subseteq> insert (c + weight g v u, u, L \<union> (S_get S u \<inter> P), p @ [u]) (set q)"
    by (auto simp: basic_relax_def Let_def heappush_set split: if_splits)
  from Cons.prems s1 have "fold (basic_relax g P S (c, v, L, p)) us (vis1, q1) = (vis', q')"
    by simp
  from Cons.IH[OF this] q1 show ?case by auto
qed

lemma basic_seed_fold_pq:
  "fold (basic_seed P S) vs (vis, q) = (vis', q') \<Longrightarrow>
   set q' \<subseteq> set q \<union> {(0, v, S_get S v \<inter> P, [v]) | v. v \<in> set vs}"
proof (induction vs arbitrary: vis q)
  case Nil
  then show ?case by simp
next
  case (Cons v vs)
  obtain vis1 q1 where s1: "basic_seed P S v (vis, q) = (vis1, q1)"
    by (cases "basic_seed P S v (vis, q)")
  then have q1: "set q1 \<subseteq> insert (0, v, S_get S v \<inter> P, [v]) (set q)"
    by (auto simp: basic_seed_def Let_def heappush_set)
  from Cons.prems s1 have "fold (basic_seed P S) vs (vis1, q1) = (vis', q')" by simp
  from Cons.IH[OF this] q1 show ?case by auto
qed

lemma entry_ok_seed: "v \<in> set (nodes g) \<Longrightarrow> entry_ok g P S (0, v, S_get S v \<inter> P, [v])"
  by (simp add: entry_ok_def walk_def walk_cost_def collected_def)

lemma entry_ok_relax:
  "entry_ok g P S (c, v, L, p) \<Longrightarrow> u \<in> set (neighbors g v) \<Longrightarrow>
   entry_ok g P S (c + weight g v u, u, L \<union> (S_get S u \<inter> P), p @ [u])"
proof -
  assume e: "entry_ok g P S (c, v, L, p)" and u: "u \<in> set (neighbors g v)"
  then have "p \<noteq> []" by (auto simp: entry_ok_def walk_def)
  with e u show ?thesis
    by (simp add: entry_ok_def walk_snoc walk_cost_snoc collected_snoc)
qed

lemma basic_init_inv: "basic_inv g P S (basic_init g P S)"
proof -
  obtain vis q where f: "fold (basic_seed P S) (nodes g) ([], []) = (vis, q)"
    by (cases "fold (basic_seed P S) (nodes g) ([], [])")
  from basic_seed_fold_pq[OF f] have "\<forall>e\<in>set q. entry_ok g P S e"
    by (auto intro: entry_ok_seed)
  then show ?thesis by (simp add: basic_inv_def basic_init_def f best_ok_def)
qed

lemma basic_step_inv:
  assumes "basic_inv g P S s" "pq s \<noteq> []"
  shows "basic_inv g P S (basic_step g P S s)"
proof -
  obtain c v L p q where pop: "heappop (pq s) = ((c, v, L, p), q)"
    by (cases "heappop (pq s)") auto
  from heappop_set[OF assms(2) pop] have setq: "set (pq s) = insert (c, v, L, p) (set q)" .
  with assms(1) have e: "entry_ok g P S (c, v, L, p)" and q: "\<forall>e\<in>set q. entry_ok g P S e"
    and b: "best_ok g P S s"
    by (auto simp: basic_inv_def)
  obtain vis' q' where f: "fold (basic_relax g P S (c, v, L, p)) (neighbors g v) (visited s, q) = (vis', q')"
    by (cases "fold (basic_relax g P S (c, v, L, p)) (neighbors g v) (visited s, q)")
  from basic_relax_fold_pq[OF f] q e have q': "\<forall>e\<in>set q'. entry_ok g P S e"
    by (auto intro: entry_ok_relax)
  have full: "P \<subseteq> L \<Longrightarrow> collected P S p = P"
    using e collected_subset[of P S p] by (auto simp: entry_ok_def)
  have bnew: "P \<subseteq> L \<Longrightarrow> best_ok g P S (s\<lparr>best_cost := Fin c, best_path := p, pq := q\<rparr>)"
    using e full by (auto simp: best_ok_def entry_ok_def)
  have bsame: "best_ok g P S (s\<lparr>pq := q\<rparr>)" "best_ok g P S (s\<lparr>visited := vis', pq := q'\<rparr>)"
    using b by (auto simp: best_ok_def)
  show ?thesis
    unfolding basic_step_def pop using q q' bnew bsame
    by (auto simp: basic_inv_def f)
qed

lemma basic_result_inv:
  assumes "basic g P S = Some (c, path)"
  shows "(c = PInf \<and> path = []) \<or>
         (walk g path \<and> c = Fin (walk_cost g path) \<and> collected P S path = P)"
proof -
  from assms obtain s' where l: "basic_loop g P S (basic_init g P S) = Some s'"
    and r: "c = best_cost s'" "path = best_path s'"
    by (auto simp: basic_def)
  from basic_loop_rule[OF l, of "basic_inv g P S"] basic_init_inv basic_step_inv
  have "basic_inv g P S s'" by blast
  with r show ?thesis by (auto simp: basic_inv_def best_ok_def)
qed



text \<open>
  C5. When \<open>basic\<close> returns a finite cost, the labels \<open>S(v) \<inter> P\<close> of the vertices of the
  returned path together are all of \<open>P\<close>.
\<close>

theorem basic_path_collects_query:
  assumes "basic g P S = Some (Fin c, path)"
  shows "(\<Union>v\<in>set path. S_get S v \<inter> P) = P"
  using basic_result_inv[OF assms] by (auto simp: collected_def)

theorem basic_path_collects_query_witness:
  "basic triangle {0, 1} triangle_labels = Some (Fin 2, [1, 0]) \<and>
   (\<Union>v\<in>set [1, 0::nat]. S_get triangle_labels v \<inter> {0, 1::nat}) = {0, 1}"
proof -
  have run: "basic triangle {0, 1} triangle_labels = Some (Fin 2, [1, 0])"
    by code_simp
  show ?thesis
    by (rule conjI[OF run basic_path_collects_query[OF run]])
qed

section \<open>The visited table only goes down, costs are non-negative\<close>

lemma visited_get_update:
  "visited_get (AList.update k c vis) k' = (if k' = k then Fin c else visited_get vis k')"
  by (simp add: visited_get_def update_conv')

lemma write_lower_le: "write_lower vis vis' \<Longrightarrow> visited_get vis' k \<le> visited_get vis k"
  by (auto simp: write_lower_def visited_get_update)

lemma write_lower_refl: "write_lower vis vis"
  by (simp add: write_lower_def)

lemma write_lowerI: "Fin c < visited_get vis k \<Longrightarrow> write_lower vis (AList.update k c vis)"
  unfolding write_lower_def by blast

lemma basic_relax_write: "write_lower vis (fst (basic_relax g P S e u (vis, q)))"
  by (cases e) (simp add: basic_relax_def Let_def write_lowerI write_lower_refl)

lemma pruned_relax_write: "write_lower vis (fst (pruned_relax g P S best e u (vis, q)))"
  by (cases e) (simp add: pruned_relax_def Let_def write_lowerI write_lower_refl)

lemma pruned_merge_write: "write_lower vis (fst (pruned_merge P best e it (vis, q)))"
  by (cases e; cases it) (auto simp: pruned_merge_def Let_def write_lowerI write_lower_refl)

lemma pruned_seed_write: "write_lower vis (fst (pruned_seed v lbl (vis, q)))"
  by (simp add: pruned_seed_def Let_def not_le write_lowerI write_lower_refl)

lemma fold_le:
  assumes "\<And>x vis q. visited_get (fst (f x (vis, q))) k \<le> visited_get vis k"
  shows "visited_get (fst (fold f xs (vis, q))) k \<le> visited_get vis k"
proof (induction xs arbitrary: vis q)
  case Nil
  then show ?case by simp
next
  case (Cons x xs)
  obtain vis1 q1 where s1: "f x (vis, q) = (vis1, q1)" by (cases "f x (vis, q)")
  have "visited_get (fst (fold f xs (vis1, q1))) k \<le> visited_get vis1 k" by (rule Cons.IH)
  also have "\<dots> \<le> visited_get vis k" using assms[of x vis q] s1 by simp
  finally show ?case using s1 by simp
qed

lemma basic_relax_fold_le:
  "visited_get (fst (fold (basic_relax g P S e) us (vis, q))) k \<le> visited_get vis k"
  by (rule fold_le) (rule write_lower_le[OF basic_relax_write])

lemma basic_step_le: "visited_get (visited (basic_step g P S s)) k \<le> visited_get (visited s) k"
proof -
  obtain c v L p q where pop: "heappop (pq s) = ((c, v, L, p), q)"
    by (cases "heappop (pq s)") auto
  obtain vis' q' where f: "fold (basic_relax g P S (c, v, L, p)) (neighbors g v) (visited s, q) = (vis', q')"
    by (cases "fold (basic_relax g P S (c, v, L, p)) (neighbors g v) (visited s, q)")
  from basic_relax_fold_le[of g P S "(c, v, L, p)" "neighbors g v" "visited s" q k] f
  have "visited_get vis' k \<le> visited_get (visited s) k" by simp
  then show ?thesis unfolding basic_step_def pop by (simp add: f)
qed

lemma pruned_expand_le:
  "visited_get (fst (pruned_expand g P S best e (vis, q))) k \<le> visited_get vis k"
proof -
  obtain vis1 q1 where s1: "fold (pruned_relax g P S best e) (neighbors g (fst (snd e))) (vis, q) = (vis1, q1)"
    by (cases "fold (pruned_relax g P S best e) (neighbors g (fst (snd e))) (vis, q)")
  have a: "visited_get vis1 k \<le> visited_get vis k"
    using fold_le[of "pruned_relax g P S best e" k "neighbors g (fst (snd e))" vis q,
        OF write_lower_le[OF pruned_relax_write]] s1 by simp
  have "visited_get (fst (fold (pruned_merge P best e) vis1 (vis1, q1))) k \<le> visited_get vis1 k"
    by (rule fold_le) (rule write_lower_le[OF pruned_merge_write])
  with a show ?thesis by (simp add: pruned_expand_def Let_def s1)
qed

lemma pruned_step_le: "visited_get (visited (pruned_step g P S s)) k \<le> visited_get (visited s) k"
proof -
  obtain c v L p q where pop: "heappop (pq s) = ((c, v, L, p), q)"
    by (cases "heappop (pq s)") auto
  obtain vis' q' where f: "pruned_expand g P S (best_cost s) (c, v, L, p) (visited s, q) = (vis', q')"
    by (cases "pruned_expand g P S (best_cost s) (c, v, L, p) (visited s, q)")
  from pruned_expand_le[of g P S "best_cost s" "(c, v, L, p)" "visited s" q k] f
  have "visited_get vis' k \<le> visited_get (visited s) k" by simp
  then show ?thesis unfolding pruned_step_def pop by (simp add: f)
qed

text \<open>Seeding of the exact search: every key is fresh when the nodes are distinct.\<close>

lemma basic_seed_fold_keys:
  "fst ` set (fst (fold (basic_seed P S) vs (vis, q))) \<subseteq>
     fst ` set vis \<union> {(v, S_get S v \<inter> P) | v. v \<in> set vs}"
proof (induction vs arbitrary: vis q)
  case Nil
  then show ?case by simp
next
  case (Cons v vs)
  have "fst ` set (AList.update (v, S_get S v \<inter> P) 0 vis) =
        insert (v, S_get S v \<inter> P) (fst ` set vis)"
    using dom_update[of "(v, S_get S v \<inter> P)" "0::rat" vis] by (simp add: dom_map_of_conv_image_fst)
  with Cons.IH[of "AList.update (v, S_get S v \<inter> P) 0 vis" "heappush q (0, v, S_get S v \<inter> P, [v])"]
  show ?case by (auto simp: basic_seed_def Let_def)
qed

lemma basic_seed_fresh:
  assumes "distinct (vs @ [v])"
  shows "write_lower (fst (fold (basic_seed P S) vs ([], [])))
           (fst (fold (basic_seed P S) (vs @ [v]) ([], [])))"
proof -
  obtain vis q where f: "fold (basic_seed P S) vs ([], []) = (vis, q)"
    by (cases "fold (basic_seed P S) vs ([], [])")
  from basic_seed_fold_keys[of P S vs "[]" "[]"] f assms
  have "(v, S_get S v \<inter> P) \<notin> fst ` set vis" by auto
  then have "map_of vis (v, S_get S v \<inter> P) = None" by (simp add: map_of_eq_None_iff)
  then have "Fin 0 < visited_get vis (v, S_get S v \<inter> P)" by (simp add: visited_get_def)
  then have "write_lower vis (AList.update (v, S_get S v \<inter> P) 0 vis)" by (rule write_lowerI)
  then show ?thesis by (simp add: f basic_seed_def Let_def)
qed

lemma fold_inv:
  assumes "Q a" and "\<And>x a. x \<in> set xs \<Longrightarrow> Q a \<Longrightarrow> Q (f x a)"
  shows "Q (fold f xs a)"
  using assms by (induction xs arbitrary: a) auto

lemma set_update_subset: "set (AList.update k v al) \<subseteq> insert (k, v) (set al)"
  by (induction al) auto

lemma nonneg_vq_push:
  assumes "nonneg_vq (vis, q)" "0 \<le> c"
  shows "nonneg_vq (AList.update k c vis, heappush q (c, v, L, p))"
  using assms set_update_subset[of k c vis]
  by (auto simp: nonneg_vq_def heappush_set)

lemma basic_seed_nonneg: "nonneg_vq a \<Longrightarrow> nonneg_vq (basic_seed P S v a)"
  by (cases a) (simp add: basic_seed_def Let_def nonneg_vq_push)

lemma pruned_seed_nonneg: "nonneg_vq a \<Longrightarrow> nonneg_vq (pruned_seed v lbl a)"
  by (cases a) (simp add: pruned_seed_def Let_def nonneg_vq_push)

lemma basic_relax_nonneg:
  "nonneg_weights g \<Longrightarrow> 0 \<le> c \<Longrightarrow> u \<in> set (neighbors g v) \<Longrightarrow> nonneg_vq a \<Longrightarrow>
   nonneg_vq (basic_relax g P S (c, v, L, p) u a)"
  by (cases a) (simp add: basic_relax_def Let_def nonneg_vq_push nonneg_weights_def)

lemma pruned_relax_nonneg:
  "nonneg_weights g \<Longrightarrow> 0 \<le> c \<Longrightarrow> u \<in> set (neighbors g v) \<Longrightarrow> nonneg_vq a \<Longrightarrow>
   nonneg_vq (pruned_relax g P S best (c, v, L, p) u a)"
  by (cases a) (simp add: pruned_relax_def Let_def nonneg_vq_push nonneg_weights_def)

lemma pruned_merge_nonneg:
  "0 \<le> c \<Longrightarrow> 0 \<le> snd it \<Longrightarrow> nonneg_vq a \<Longrightarrow>
   nonneg_vq (pruned_merge P best (c, v, L, p) it a)"
  by (cases a; cases it; cases "fst it") (simp add: pruned_merge_def Let_def nonneg_vq_push)

lemma pruned_expand_nonneg:
  assumes "nonneg_weights g" "0 \<le> c" "nonneg_vq a"
  shows "nonneg_vq (pruned_expand g P S best (c, v, L, p) a)"
proof -
  let ?a1 = "fold (pruned_relax g P S best (c, v, L, p)) (neighbors g v) a"
  have a1: "nonneg_vq ?a1"
    by (rule fold_inv[where Q = nonneg_vq, OF assms(3)]) (rule pruned_relax_nonneg[OF assms(1,2)])
  have "nonneg_vq (fold (pruned_merge P best (c, v, L, p)) (fst ?a1) ?a1)"
  proof (rule fold_inv[where Q = nonneg_vq, OF a1], goal_cases)
    case (1 x b)
    from a1 1(1) have "0 \<le> snd x"
      by (cases ?a1) (auto simp: nonneg_vq_def)
    with 1(2) show ?case
      using assms(2) by (simp add: pruned_merge_nonneg)
  qed
  then show ?thesis by (simp add: pruned_expand_def Let_def)
qed

lemma basic_init_nonneg: "nonneg_state (basic_init g P S)"
proof -
  have "nonneg_vq (fold (basic_seed P S) (nodes g) ([], []))"
    by (rule fold_inv[where Q = nonneg_vq]) (simp add: nonneg_vq_def, rule basic_seed_nonneg)
  then show ?thesis
    by (cases "fold (basic_seed P S) (nodes g) ([], [])") (simp add: nonneg_state_def basic_init_def)
qed

lemma pruned_init_nonneg: "nonneg_state (pruned_init enum g P S)"
proof -
  have "nonneg_vq (fold (\<lambda>v. fold (pruned_seed v) (enum (S_get S v \<inter> P))) (nodes g) ([], []))"
  proof (rule fold_inv[where Q = nonneg_vq])
    show "nonneg_vq ([], [])" by (simp add: nonneg_vq_def)
  next
    fix v and a :: "('a, 'b) vtable \<times> ('a, 'b) entry list"
    assume "nonneg_vq a"
    then show "nonneg_vq (fold (pruned_seed v) (enum (S_get S v \<inter> P)) a)"
      by (rule fold_inv[where Q = nonneg_vq]) (rule pruned_seed_nonneg)
  qed
  then show ?thesis
    by (cases "fold (\<lambda>v. fold (pruned_seed v) (enum (S_get S v \<inter> P))) (nodes g) ([], [])")
       (simp add: nonneg_state_def pruned_init_def)
qed

lemma nonneg_vq_pop:
  assumes "nonneg_vq (vis, q0)" "q0 \<noteq> []" "heappop q0 = ((c, v, L, p), q)"
  shows "0 \<le> c \<and> nonneg_vq (vis, q)"
  using assms(1) heappop_set[OF assms(2,3)] by (auto simp: nonneg_vq_def)

lemma basic_step_nonneg:
  assumes "nonneg_weights g" "nonneg_state s" "pq s \<noteq> []"
  shows "nonneg_state (basic_step g P S s)"
proof -
  obtain c v L p q where pop: "heappop (pq s) = ((c, v, L, p), q)"
    by (cases "heappop (pq s)") auto
  from assms(2) have vq: "nonneg_vq (visited s, pq s)" and b: "Fin 0 \<le> best_cost s"
    by (auto simp: nonneg_state_def)
  from nonneg_vq_pop[OF vq assms(3) pop] have c: "0 \<le> c" and q: "nonneg_vq (visited s, q)" by auto
  have "nonneg_vq (fold (basic_relax g P S (c, v, L, p)) (neighbors g v) (visited s, q))"
    by (rule fold_inv[where Q = nonneg_vq, OF q]) (rule basic_relax_nonneg[OF assms(1) c])
  then show ?thesis
    unfolding basic_step_def pop using q b c
    by (cases "fold (basic_relax g P S (c, v, L, p)) (neighbors g v) (visited s, q)")
       (auto simp: nonneg_state_def)
qed

lemma pruned_step_nonneg:
  assumes "nonneg_weights g" "nonneg_state s" "pq s \<noteq> []"
  shows "nonneg_state (pruned_step g P S s)"
proof -
  obtain c v L p q where pop: "heappop (pq s) = ((c, v, L, p), q)"
    by (cases "heappop (pq s)") auto
  from assms(2) have vq: "nonneg_vq (visited s, pq s)" and b: "Fin 0 \<le> best_cost s"
    by (auto simp: nonneg_state_def)
  from nonneg_vq_pop[OF vq assms(3) pop] have c: "0 \<le> c" and q: "nonneg_vq (visited s, q)" by auto
  have "nonneg_vq (pruned_expand g P S (best_cost s) (c, v, L, p) (visited s, q))"
    by (rule pruned_expand_nonneg[OF assms(1) c q])
  then show ?thesis
    unfolding pruned_step_def pop using q b c
    by (cases "pruned_expand g P S (best_cost s) (c, v, L, p) (visited s, q)")
       (auto simp: nonneg_state_def)
qed

lemma pruned_loop_rule:
  assumes "pruned_loop g P S s = Some s'" and "I s"
    and "\<And>s. I s \<Longrightarrow> pq s \<noteq> [] \<Longrightarrow> I (pruned_step g P S s)"
  shows "I s' \<and> pq s' = []"
proof -
  let ?Q = "\<lambda>x y. case x of (((g', P'), S'), s0) \<Rightarrow>
              (g' = g \<and> P' = P \<and> S' = S \<longrightarrow> I s0 \<longrightarrow> I y \<and> pq y = [])"
  have "?Q (((g, P), S), s) s'"
  proof (rule pruned_loop.raw_induct[where Pa = ?Q, OF _ assms(1)], goal_cases)
    case (1 f g' P' S' s0 y)
    show ?case
    proof (cases "pq s0 = []")
      case True
      with 1(2) show ?thesis by auto
    next
      case False
      with 1(2) have "f g' P' S' (pruned_step g' P' S' s0) = Some y" by simp
      from 1(1)[OF this] show ?thesis using False assms(3) by auto
    qed
  qed
  with assms(2) show ?thesis by simp
qed

lemma basic_result_nonneg:
  assumes "nonneg_weights g" "basic g P S = Some (c, p)"
  shows "Fin 0 \<le> c"
proof -
  from assms(2) obtain s' where l: "basic_loop g P S (basic_init g P S) = Some s'"
    and r: "c = best_cost s'" by (auto simp: basic_def)
  from basic_loop_rule[OF l, of nonneg_state] basic_init_nonneg basic_step_nonneg[OF assms(1)]
  have "nonneg_state s'" by blast
  with r show ?thesis by (simp add: nonneg_state_def)
qed

lemma pruned_result_nonneg:
  assumes "nonneg_weights g" "pruned_dp enum g P S = Some (c, p)"
  shows "Fin 0 \<le> c"
proof -
  from assms(2) obtain s' where l: "pruned_loop g P S (pruned_init enum g P S) = Some s'"
    and r: "c = best_cost s'" by (auto simp: pruned_dp_def)
  from pruned_loop_rule[OF l, of nonneg_state] pruned_init_nonneg pruned_step_nonneg[OF assms(1)]
  have "nonneg_state s'" by blast
  with r show ?thesis by (simp add: nonneg_state_def)
qed

text \<open>
  C7. In both searches every write to the visited table is a write of a strictly lower
  cost (the seeds of \<open>basic\<close> are written to fresh keys, the nodes being distinct), so
  a visited entry never increases over an iteration of the main loop; and on graphs with
  non-negative weights the returned best cost is non-negative.
\<close>

theorem visited_only_lowered_and_best_nonneg:
  "write_lower vis (fst (basic_relax g P S e u (vis, q))) \<and>
   write_lower vis (fst (pruned_seed v lbl (vis, q))) \<and>
   write_lower vis (fst (pruned_relax g P S best e u (vis, q))) \<and>
   write_lower vis (fst (pruned_merge P best e it (vis, q))) \<and>
   (distinct (vs @ [v]) \<longrightarrow>
      write_lower (fst (fold (basic_seed P S) vs ([], [])))
        (fst (fold (basic_seed P S) (vs @ [v]) ([], [])))) \<and>
   visited_get (visited (basic_step g P S s)) k \<le> visited_get (visited s) k \<and>
   visited_get (visited (pruned_step g P S s)) k \<le> visited_get (visited s) k \<and>
   (nonneg_weights g \<longrightarrow>
      (\<forall>c p. basic g P S = Some (c, p) \<longrightarrow> Fin 0 \<le> c) \<and>
      (\<forall>c p. pruned_dp enum g P S = Some (c, p) \<longrightarrow> Fin 0 \<le> c))"
proof -
  have h: "nonneg_weights g \<longrightarrow>
      (\<forall>c p. basic g P S = Some (c, p) \<longrightarrow> Fin 0 \<le> c) \<and>
      (\<forall>c p. pruned_dp enum g P S = Some (c, p) \<longrightarrow> Fin 0 \<le> c)"
    using basic_result_nonneg[of g P S] pruned_result_nonneg[of g enum P S] by blast
  have d: "distinct (vs @ [v]) \<longrightarrow>
      write_lower (fst (fold (basic_seed P S) vs ([], [])))
        (fst (fold (basic_seed P S) (vs @ [v]) ([], [])))"
    using basic_seed_fresh[of vs v P S] by blast
  show ?thesis
    by (intro conjI)
       (rule basic_relax_write pruned_seed_write pruned_relax_write pruned_merge_write
          d basic_step_le pruned_step_le h)+
qed

lemma triangle_nonneg: "nonneg_weights triangle"
  by (simp add: nonneg_weights_def triangle_def add_edge_def half_edge_def empty_graph_def
      weight_def)

theorem visited_only_lowered_and_best_nonneg_witness:
  "distinct ([0, 1] @ [2::nat]) \<and>
   write_lower (fst (fold (basic_seed {0, 1::nat} triangle_labels) [0, 1] ([], [])))
     (fst (fold (basic_seed {0, 1::nat} triangle_labels) ([0, 1] @ [2]) ([], []))) \<and>
   nonneg_weights triangle \<and>
   basic triangle {0, 1} triangle_labels = Some (Fin 2, [1, 0]) \<and>
   pruned_dp sorted_list_of_set triangle {0, 1} triangle_labels = Some (Fin 2, [1, 0]) \<and>
   Fin 0 \<le> Fin 2"
proof -
  have dist: "distinct ([0, 1] @ [2::nat])" by simp
  have rb: "basic triangle {0, 1} triangle_labels = Some (Fin 2, [1, 0])"
    by code_simp
  have rp: "pruned_dp sorted_list_of_set triangle {0, 1} triangle_labels = Some (Fin 2, [1, 0])"
    by code_simp
  note t = visited_only_lowered_and_best_nonneg[where g = triangle and P = "{0, 1}"
      and S = triangle_labels and vs = "[0, 1]" and v = 2 and enum = sorted_list_of_set
      and vis = "[]" and q = "[]" and e = "(0, 0, {}, [])" and u = 0 and lbl = 0
      and best = PInf and it = "((0, {}), 0)" and s = skip_state and k = "(0, {})"]
  from t dist have w: "write_lower (fst (fold (basic_seed {0, 1::nat} triangle_labels) [0, 1] ([], [])))
     (fst (fold (basic_seed {0, 1::nat} triangle_labels) ([0, 1] @ [2]) ([], [])))"
    by (elim conjE) (erule mp)
  from t triangle_nonneg rb have nn: "Fin 0 \<le> Fin 2"
    by (elim conjE) blast
  show ?thesis
    by (rule conjI[OF dist conjI[OF w conjI[OF triangle_nonneg conjI[OF rb conjI[OF rp nn]]]]])
qed

section \<open>\<open>heappop\<close> returns an entry of least cost\<close>

lemma cost_heap_root: "cost_heap h \<Longrightarrow> i < length h \<Longrightarrow> fst (h ! 0) \<le> fst (h ! i)"
proof (induction i rule: less_induct)
  case (less i)
  show ?case
  proof (cases "i = 0")
    case True
    then show ?thesis by simp
  next
    case False
    then have p: "(i - 1) div 2 < i" by auto
    with less.prems have "fst (h ! 0) \<le> fst (h ! ((i - 1) div 2))"
      by (intro less.IH) auto
    also have "\<dots> \<le> fst (h ! i)" using less.prems False by (auto simp: cost_heap_def)
    finally show ?thesis .
  qed
qed

lemma hole_heap_stop:
  assumes "hole_heap h pos x" "pos < length h"
    and "pos = 0 \<or> \<not> entry_lt x (h ! ((pos - 1) div 2))"
  shows "cost_heap (h[pos := x])"
  unfolding cost_heap_def
proof (intro allI impI)
  fix i assume i: "0 < i \<and> i < length (h[pos := x])"
  show "fst (h[pos := x] ! ((i - 1) div 2)) \<le> fst (h[pos := x] ! i)"
  proof (cases "i = pos")
    case False
    with assms(1) i show ?thesis by (simp add: hole_heap_def)
  next
    case True
    with i assms(3) have "\<not> entry_lt x (h ! ((pos - 1) div 2))" by auto
    then have "fst (h ! ((pos - 1) div 2)) \<le> fst x" by (rule not_entry_lt_cost)
    moreover have "(pos - 1) div 2 \<noteq> pos" using True i by auto
    ultimately show ?thesis using True i by simp
  qed
qed

lemma hole_heap_step:
  assumes hh: "hole_heap h pos x" and pos: "0 < pos" "pos < length h"
    and lt: "entry_lt x (h ! ((pos - 1) div 2))"
  shows "hole_heap (h[pos := h ! ((pos - 1) div 2)]) ((pos - 1) div 2) x"
proof -
  let ?pp = "(pos - 1) div 2"
  let ?h1 = "h[pos := h ! ?pp]"
  have pp: "?pp < pos" using pos by auto
  have xle: "fst x \<le> fst (h ! ?pp)" using lt by (rule entry_lt_cost)
  have A: "\<And>i. 0 < i \<Longrightarrow> i < length h \<Longrightarrow> i \<noteq> pos \<Longrightarrow>
             fst (h[pos := x] ! ((i - 1) div 2)) \<le> fst (h ! i)"
    using hh by (simp add: hole_heap_def)
  have B: "\<And>i. 0 < i \<Longrightarrow> i < length h \<Longrightarrow> (i - 1) div 2 = pos \<Longrightarrow> fst (h ! ?pp) \<le> fst (h ! i)"
    using hh pos by (simp add: hole_heap_def)
  have A1: "fst (?h1[?pp := x] ! ((i - 1) div 2)) \<le> fst (?h1[?pp := x] ! i)"
    if i: "0 < i" "i < length h" "i \<noteq> ?pp" for i
  proof (cases "i = pos")
    case True
    then show ?thesis using pp pos xle by simp
  next
    case False
    have pi: "(i - 1) div 2 < i" using i by auto
    consider "(i - 1) div 2 = ?pp" | "(i - 1) div 2 = pos" | "(i - 1) div 2 \<noteq> ?pp" "(i - 1) div 2 \<noteq> pos"
      by blast
    then show ?thesis
    proof cases
      case 1
      have "fst (h[pos := x] ! ?pp) \<le> fst (h ! i)" using A[OF i(1,2) False] 1 by simp
      then have "fst (h ! ?pp) \<le> fst (h ! i)" using pp by simp
      with xle show ?thesis using 1 False i pp pos by simp
    next
      case 2
      from B[OF i(1,2) 2] show ?thesis using 2 False i pp pos by simp
    next
      case 3
      from A[OF i(1,2) False] show ?thesis using 3 False i pp pos by simp
    qed
  qed
  have B1: "fst (?h1 ! ((?pp - 1) div 2)) \<le> fst (?h1 ! i)"
    if i: "0 < ?pp" "0 < i" "i < length h" "(i - 1) div 2 = ?pp" for i
  proof -
    have gp: "(?pp - 1) div 2 < ?pp" using i(1) by auto
    have g: "fst (h ! ((?pp - 1) div 2)) \<le> fst (h ! ?pp)"
      using A[of ?pp] i(1) pp pos gp by simp
    show ?thesis
    proof (cases "i = pos")
      case True
      then show ?thesis using g gp pp pos by simp
    next
      case False
      have "fst (h[pos := x] ! ?pp) \<le> fst (h ! i)" using A[OF i(2,3) False] i(4) by simp
      then have "fst (h ! ?pp) \<le> fst (h ! i)" using pp by simp
      with g show ?thesis using False gp pp pos i by simp
    qed
  qed
  show ?thesis unfolding hole_heap_def
  proof (intro conjI allI impI)
    fix i assume a: "0 < i \<and> i < length ?h1 \<and> i \<noteq> ?pp"
    from a have "0 < i" "i < length h" "i \<noteq> ?pp" by simp_all
    then show "fst (?h1[?pp := x] ! ((i - 1) div 2)) \<le> fst (?h1[?pp := x] ! i)" by (rule A1)
  next
    fix i assume p0: "0 < ?pp" and a: "0 < i \<and> i < length ?h1 \<and> (i - 1) div 2 = ?pp"
    from a have "0 < i" "i < length h" "(i - 1) div 2 = ?pp" by simp_all
    with p0 show "fst (?h1 ! ((?pp - 1) div 2)) \<le> fst (?h1 ! i)" by (rule B1)
  qed
qed

lemma siftdown_loop_heap:
  "hole_heap h pos x \<Longrightarrow> pos < length h \<Longrightarrow> cost_heap (siftdown_loop h 0 pos x)"
proof (induction pos arbitrary: h rule: less_induct)
  case (less pos)
  show ?case
  proof (cases "0 < pos \<and> entry_lt x (h ! ((pos - 1) div 2))")
    case True
    then have pp: "(pos - 1) div 2 < pos" by auto
    have "cost_heap (siftdown_loop (h[pos := h ! ((pos - 1) div 2)]) 0 ((pos - 1) div 2) x)"
      using less.IH[OF pp hole_heap_step[OF less.prems(1) _ less.prems(2)]] True pp less.prems(2)
      by simp
    then show ?thesis using True by (simp add: siftdown_loop_go)
  next
    case False
    then show ?thesis
      using hole_heap_stop[OF less.prems] by (auto simp: siftdown_loop_stop)
  qed
qed

lemma pick_child_le:
  assumes "0 < i" "i < length h" "(i - 1) div 2 = pos"
  shows "fst (h ! pick_child h pos) \<le> fst (h ! i)"
proof -
  from assms have "i = 2 * pos + 1 \<or> i = 2 * pos + 2" by auto
  then show ?thesis
  proof
    assume i: "i = 2 * pos + 1"
    show ?thesis
    proof (cases "2 * pos + 2 < length h \<and> \<not> entry_lt (h ! (2 * pos + 1)) (h ! (2 * pos + 2))")
      case True
      then show ?thesis using i not_entry_lt_cost[of "h ! (2 * pos + 1)" "h ! (2 * pos + 2)"]
        by (simp add: pick_child_def)
    next
      case False
      then show ?thesis using i by (auto simp: pick_child_def)
    qed
  next
    assume i: "i = 2 * pos + 2"
    show ?thesis
    proof (cases "\<not> entry_lt (h ! (2 * pos + 1)) (h ! (2 * pos + 2))")
      case True
      then show ?thesis using i assms(2) by (simp add: pick_child_def)
    next
      case False
      then have "fst (h ! (2 * pos + 1)) \<le> fst (h ! (2 * pos + 2))"
        using entry_lt_cost by blast
      with False show ?thesis using i by (simp add: pick_child_def)
    qed
  qed
qed

lemma up_heap_step:
  assumes uh: "up_heap h pos" and c: "2 * pos + 1 < length h"
  shows "up_heap (h[pos := h ! pick_child h pos]) (pick_child h pos)"
proof -
  let ?c = "pick_child h pos"
  let ?h1 = "h[pos := h ! ?c]"
  have cc: "?c < length h" "pos < ?c" "(?c - 1) div 2 = pos" "0 < ?c"
    using pick_child_cases[of h pos] c by auto
  have a: "\<And>i. 0 < i \<Longrightarrow> i < length h \<Longrightarrow> (i - 1) div 2 \<noteq> pos \<Longrightarrow>
             fst (h ! ((i - 1) div 2)) \<le> fst (h ! i)"
    using uh by (simp add: up_heap_def)
  have b: "\<And>i. 0 < pos \<Longrightarrow> 0 < i \<Longrightarrow> i < length h \<Longrightarrow> (i - 1) div 2 = pos \<Longrightarrow>
             fst (h ! ((pos - 1) div 2)) \<le> fst (h ! i)"
    using uh by (simp add: up_heap_def)
  have a1: "fst (?h1 ! ((i - 1) div 2)) \<le> fst (?h1 ! i)"
    if i: "0 < i" "i < length h" "(i - 1) div 2 \<noteq> ?c" for i
  proof (cases "i = pos")
    case True
    then have p0: "0 < pos" using i by simp
    then have "(pos - 1) div 2 < pos" by auto
    moreover have "fst (h ! ((pos - 1) div 2)) \<le> fst (h ! ?c)"
      using b[OF p0 cc(4) cc(1) cc(3)] .
    ultimately show ?thesis using True i by simp
  next
    case False
    show ?thesis
    proof (cases "(i - 1) div 2 = pos")
      case True
      from pick_child_le[OF i(1,2) True] show ?thesis using True False i c by simp
    next
      case F2: False
      from a[OF i(1,2) F2] show ?thesis using False F2 by simp
    qed
  qed
  have b1: "fst (?h1 ! ((?c - 1) div 2)) \<le> fst (?h1 ! i)"
    if i: "0 < i" "i < length h" "(i - 1) div 2 = ?c" for i
  proof -
    have "i \<noteq> pos" using i cc by auto
    moreover have "fst (h ! ?c) \<le> fst (h ! i)"
      using a[OF i(1,2)] i(3) cc by simp
    ultimately show ?thesis using cc c by simp
  qed
  show ?thesis unfolding up_heap_def
  proof (intro conjI allI impI)
    fix i assume x: "0 < i \<and> i < length ?h1 \<and> (i - 1) div 2 \<noteq> ?c"
    from x have "0 < i" "i < length h" "(i - 1) div 2 \<noteq> ?c" by simp_all
    then show "fst (?h1 ! ((i - 1) div 2)) \<le> fst (?h1 ! i)" by (rule a1)
  next
    fix i assume x: "0 < i \<and> i < length ?h1 \<and> (i - 1) div 2 = ?c"
    from x have "0 < i" "i < length h" "(i - 1) div 2 = ?c" by simp_all
    then show "fst (?h1 ! ((?c - 1) div 2)) \<le> fst (?h1 ! i)" by (rule b1)
  qed
qed

lemma siftup_loop_heap:
  "up_heap h pos \<Longrightarrow> pos < length h \<Longrightarrow> siftup_loop h pos = (h', pos') \<Longrightarrow> up_heap h' pos'"
proof (induction "length h - pos" arbitrary: h pos rule: less_induct)
  case less
  show ?case
  proof (cases "2 * pos + 1 < length h")
    case False
    with less.prems show ?thesis by (simp add: siftup_loop_stop)
  next
    case True
    let ?c = "pick_child h pos"
    have cc: "?c < length h" "pos < ?c" using pick_child_cases[of h pos] True by auto
    have run: "siftup_loop (h[pos := h ! ?c]) ?c = (h', pos')"
      using less.prems True by (simp add: siftup_loop_go)
    show ?thesis
      using less.hyps[of "h[pos := h ! ?c]" ?c, OF _ up_heap_step[OF less.prems(1) True] _ run] cc
        less.prems(2)
      by simp
  qed
qed

lemma up_heap_leaf:
  assumes "up_heap h pos" "\<not> 2 * pos + 1 < length h" "pos < length h"
  shows "hole_heap h pos x"
  unfolding hole_heap_def
proof (intro conjI allI impI)
  fix i assume i: "0 < i \<and> i < length h \<and> i \<noteq> pos"
  then have "(i - 1) div 2 \<noteq> pos" using assms(2) by auto
  with assms(1) i have "fst (h ! ((i - 1) div 2)) \<le> fst (h ! i)" by (simp add: up_heap_def)
  then show "fst (h[pos := x] ! ((i - 1) div 2)) \<le> fst (h[pos := x] ! i)"
    using i \<open>(i - 1) div 2 \<noteq> pos\<close> by simp
next
  fix i assume "0 < pos" and i: "0 < i \<and> i < length h \<and> (i - 1) div 2 = pos"
  then have False using assms(2) by auto
  then show "fst (h ! ((pos - 1) div 2)) \<le> fst (h ! i)" ..
qed

lemma heappush_heap:
  assumes "cost_heap h"
  shows "cost_heap (heappush h e)"
proof -
  have "hole_heap (h @ [e]) (length h) e"
    unfolding hole_heap_def
  proof (intro conjI allI impI)
    fix i assume i: "0 < i \<and> i < length (h @ [e]) \<and> i \<noteq> length h"
    then have il: "i < length h" "(i - 1) div 2 < length h" by auto
    with assms i have "fst (h ! ((i - 1) div 2)) \<le> fst (h ! i)" by (simp add: cost_heap_def)
    then show "fst ((h @ [e])[length h := e] ! ((i - 1) div 2)) \<le> fst ((h @ [e])[length h := e] ! i)"
      using il by (simp add: nth_append)
  next
    fix i assume "0 < length h" and i: "0 < i \<and> i < length (h @ [e]) \<and> (i - 1) div 2 = length h"
    then have False by auto
    then show "fst ((h @ [e]) ! ((length h - 1) div 2)) \<le> fst ((h @ [e]) ! i)" ..
  qed
  then have "cost_heap (siftdown_loop (h @ [e]) 0 (length h) e)"
    by (rule siftdown_loop_heap) simp
  then show ?thesis by (simp add: heappush_def siftdown_def)
qed

lemma cost_heap_butlast: "cost_heap h \<Longrightarrow> cost_heap (butlast h)"
  by (auto simp: cost_heap_def nth_butlast)

lemma heappop_heap:
  assumes "cost_heap h" "h \<noteq> []" "heappop h = (e, h')"
  shows "cost_heap h' \<and> (\<forall>x\<in>set h. fst e \<le> fst x)"
proof -
  have e0: "e = h ! 0"
  proof (cases "butlast h = []")
    case True
    with assms(2) have "h = [last h]" by (metis append_butlast_last_id append_Nil)
    then have "h ! 0 = last h" by (metis nth_Cons_0)
    with True assms(3) show ?thesis by (simp add: heappop_def Let_def)
  next
    case False
    then have "0 < length (butlast h)" by blast
    then have "butlast h ! 0 = h ! 0" by (rule nth_butlast)
    with False assms(3) show ?thesis by (simp add: heappop_def Let_def)
  qed
  have min: "\<forall>x\<in>set h. fst e \<le> fst x"
  proof
    fix x assume "x \<in> set h"
    then obtain i where "i < length h" "x = h ! i" by (auto simp: in_set_conv_nth)
    with cost_heap_root[OF assms(1), of i] e0 show "fst e \<le> fst x" by simp
  qed
  have "cost_heap h'"
  proof (cases "butlast h = []")
    case True
    with assms(3) have "h' = []" by (simp add: heappop_def Let_def)
    then show ?thesis by (simp add: cost_heap_def)
  next
    case False
    let ?bl = "butlast h"
    let ?h0 = "?bl[0 := last h]"
    obtain h1 p1 where run: "siftup_loop ?h0 0 = (h1, p1)" by (cases "siftup_loop ?h0 0")
    have len: "0 < length ?h0" using False unfolding length_list_update length_greater_0_conv .
    have bl: "cost_heap ?bl" using assms(1) by (rule cost_heap_butlast)
    have "up_heap ?h0 0"
      unfolding up_heap_def
    proof (intro conjI allI impI)
      fix i assume i: "0 < i \<and> i < length ?h0 \<and> (i - 1) div 2 \<noteq> 0"
      with bl have "fst (?bl ! ((i - 1) div 2)) \<le> fst (?bl ! i)" by (simp add: cost_heap_def)
      with i show "fst (?h0 ! ((i - 1) div 2)) \<le> fst (?h0 ! i)" by simp
    next
      fix i assume "(0::nat) < 0"
      then show "fst (?h0 ! ((0 - 1) div 2)) \<le> fst (?h0 ! i)" by simp
    qed
    from siftup_loop_heap[OF this len run] have u1: "up_heap h1 p1" .
    from siftup_loop_props[OF len run, of "?h0 ! 0"]
    have p: "length h1 = length ?h0" "p1 < length ?h0" "\<not> 2 * p1 + 1 < length ?h0" by simp_all
    have "hole_heap h1 p1 (?h0 ! 0)"
      using up_heap_leaf[OF u1] p by simp
    then have "cost_heap (siftdown_loop h1 0 p1 (?h0 ! 0))"
      by (rule siftdown_loop_heap) (use p in simp)
    moreover have "h' = siftdown_loop h1 0 p1 (?h0 ! 0)"
      using assms(3) False run by (auto simp: heappop_def Let_def siftup_def)
    ultimately show ?thesis by simp
  qed
  with min show ?thesis by simp
qed

lemma has_entry_push:
  "has_entry (heappush q e) k d \<longleftrightarrow> has_entry q k d \<or> (key_of e = k \<and> fst e = d)"
  by (auto simp: has_entry_def heappush_set)

lemma has_entry_pop:
  "q0 \<noteq> [] \<Longrightarrow> heappop q0 = (e, q) \<Longrightarrow>
   has_entry q0 k d \<longleftrightarrow> has_entry q k d \<or> (key_of e = k \<and> fst e = d)"
proof -
  assume "q0 \<noteq> []" "heappop q0 = (e, q)"
  then have "set q0 = insert e (set q)" by (rule heappop_set)
  then show ?thesis unfolding has_entry_def by auto
qed

lemma settled_mono:
  assumes "settled g P S best vis k d" "best' \<le> best"
    and "\<And>k. visited_get vis' k \<le> visited_get vis k"
  shows "settled g P S best' vis' k d"
  using assms unfolding settled_def by (meson order_trans)

lemma basic_relax_relaxed:
  "relaxed g P S e [u] a (basic_relax g P S e u a)"
proof -
  obtain c v L p where e: "e = (c, v, L, p)" by (cases e) auto
  obtain vis q where a: "a = (vis, q)" by (cases a)
  show ?thesis
  proof (cases "Fin (c + weight g v u) < visited_get vis (u, L \<union> (S_get S u \<inter> P))")
    case True
    then show ?thesis
      unfolding e a relaxed_def basic_relax_def
      by (auto simp: Let_def has_entry_push visited_get_update update_conv' key_of_def)
  next
    case False
    then show ?thesis
      unfolding e a relaxed_def basic_relax_def by (auto simp: Let_def)
  qed
qed

lemma relaxed_trans:
  assumes "relaxed g P S e us a b" "relaxed g P S e vs b c"
  shows "relaxed g P S e (us @ vs) a c"
proof -
  obtain v1 q1 where a: "a = (v1, q1)" by (cases a)
  obtain v2 q2 where b: "b = (v2, q2)" by (cases b)
  obtain v3 q3 where c: "c = (v3, q3)" by (cases c)
  from assms show ?thesis
    unfolding a b c relaxed_def
    apply (simp only: prod.case set_append)
    apply (intro conjI allI impI ballI)
       apply blast
      apply (meson order_trans)
     apply blast
    apply (meson UnE order_trans)
    done
qed

lemma relaxed_refl: "relaxed g P S e [] a a"
  by (cases a) (simp add: relaxed_def)

lemma basic_relax_fold_relaxed:
  "relaxed g P S e us a (fold (basic_relax g P S e) us a)"
proof (induction us arbitrary: a)
  case Nil
  then show ?case by (simp add: relaxed_refl)
next
  case (Cons u us)
  from relaxed_trans[OF basic_relax_relaxed[of g P S e u a] Cons.IH[of "basic_relax g P S e u a"]]
  show ?case by simp
qed

lemma basic_seed_fold_zero:
  assumes "\<forall>k d. map_of vis k = Some d \<longrightarrow> d = 0 \<and> has_entry q k d"
  shows "(\<forall>k d. map_of (fst (fold (basic_seed P S) vs (vis, q))) k = Some d \<longrightarrow>
            d = 0 \<and> has_entry (snd (fold (basic_seed P S) vs (vis, q))) k d) \<and>
         (\<forall>k. map_of vis k \<noteq> None \<longrightarrow> map_of (fst (fold (basic_seed P S) vs (vis, q))) k \<noteq> None) \<and>
         (\<forall>v\<in>set vs. map_of (fst (fold (basic_seed P S) vs (vis, q))) (v, S_get S v \<inter> P) \<noteq> None)"
  using assms
proof (induction vs arbitrary: vis q)
  case Nil
  then show ?case by simp
next
  case (Cons v vs)
  let ?vis = "AList.update (v, S_get S v \<inter> P) 0 vis"
  let ?q = "heappush q (0, v, S_get S v \<inter> P, [v])"
  have st: "basic_seed P S v (vis, q) = (?vis, ?q)" by (simp add: basic_seed_def Let_def)
  have pre: "\<forall>k d. map_of ?vis k = Some d \<longrightarrow> d = 0 \<and> has_entry ?q k d"
    using Cons.prems by (auto simp: update_conv' has_entry_push key_of_def)
  have keep: "\<And>k. map_of vis k \<noteq> None \<Longrightarrow> map_of ?vis k \<noteq> None"
    by (auto simp: update_conv')
  have new: "map_of ?vis (v, S_get S v \<inter> P) \<noteq> None" by (simp add: update_conv')
  from Cons.IH[OF pre] keep new show ?case
    unfolding fold_Cons comp_apply st set_simps by blast
qed

lemma basic_init_comp: "comp_inv g P S (basic_init g P S)"
proof -
  obtain vis q where f: "fold (basic_seed P S) (nodes g) ([], []) = (vis, q)"
    by (cases "fold (basic_seed P S) (nodes g) ([], [])")
  have "\<forall>k d. map_of ([] :: ('a, 'b) vtable) k = Some d \<longrightarrow>
          d = 0 \<and> has_entry ([] :: ('a, 'b) entry list) k d" by simp
  from basic_seed_fold_zero[OF this, of P S "nodes g"] f
  have a: "\<forall>k d. map_of vis k = Some d \<longrightarrow> d = 0 \<and> has_entry q k d"
    and b: "\<forall>v\<in>set (nodes g). map_of vis (v, S_get S v \<inter> P) \<noteq> None"
    by simp_all
  have c: "\<forall>v\<in>set (nodes g). visited_get vis (v, S_get S v \<inter> P) \<le> Fin 0"
  proof
    fix v assume "v \<in> set (nodes g)"
    with b obtain d where d: "map_of vis (v, S_get S v \<inter> P) = Some d" by auto
    with a have "d = 0" by blast
    with d show "visited_get vis (v, S_get S v \<inter> P) \<le> Fin 0" by (simp add: visited_get_def)
  qed
  from a have "\<forall>k d. map_of vis k = Some d \<and> \<not> has_entry q k d \<longrightarrow>
          settled g P S PInf vis k d" by blast
  with c show ?thesis unfolding comp_inv_def basic_init_def f by simp
qed

lemma basic_step_comp:
  assumes inv: "comp_inv g P S s" and ne: "pq s \<noteq> []"
  shows "comp_inv g P S (basic_step g P S s)"
proof -
  obtain c v L p q where pop: "heappop (pq s) = ((c, v, L, p), q)"
    by (cases "heappop (pq s)") auto
  have he: "\<And>k d. has_entry (pq s) k d \<longleftrightarrow> has_entry q k d \<or> ((v, L) = k \<and> c = d)"
    using has_entry_pop[OF ne pop] by (simp add: key_of_def)
  from inv have I6: "\<And>k d. map_of (visited s) k = Some d \<Longrightarrow> \<not> has_entry (pq s) k d \<Longrightarrow>
      settled g P S (best_cost s) (visited s) k d"
    and I7: "\<And>x. x \<in> set (nodes g) \<Longrightarrow> visited_get (visited s) (x, S_get S x \<inter> P) \<le> Fin 0"
    by (auto simp: comp_inv_def)
  consider (stale) "Some c \<noteq> map_of (visited s) (v, L)"
    | (bound) "Some c = map_of (visited s) (v, L)" "best_cost s \<le> Fin c"
    | (full) "Some c = map_of (visited s) (v, L)" "\<not> best_cost s \<le> Fin c" "P \<subseteq> L"
    | (expand) "Some c = map_of (visited s) (v, L)" "\<not> best_cost s \<le> Fin c" "\<not> P \<subseteq> L"
    by blast
  then show ?thesis
  proof cases
    case stale
    then have st: "basic_step g P S s = s\<lparr>pq := q\<rparr>" by (simp add: basic_step_def pop)
    have "\<And>k d. map_of (visited s) k = Some d \<Longrightarrow> \<not> has_entry q k d \<Longrightarrow>
       settled g P S (best_cost s) (visited s) k d"
    proof -
      fix k d assume a: "map_of (visited s) k = Some d" "\<not> has_entry q k d"
      with stale have "\<not> ((v, L) = k \<and> c = d)" by auto
      with a he have "\<not> has_entry (pq s) k d" by simp
      with a show "settled g P S (best_cost s) (visited s) k d" by (simp add: I6)
    qed
    then show ?thesis unfolding st comp_inv_def using I7 by simp
  next
    case bound
    then have st: "basic_step g P S s = s\<lparr>pq := q\<rparr>" by (simp add: basic_step_def pop)
    have "\<And>k d. map_of (visited s) k = Some d \<Longrightarrow> \<not> has_entry q k d \<Longrightarrow>
       settled g P S (best_cost s) (visited s) k d"
    proof -
      fix k d assume a: "map_of (visited s) k = Some d" "\<not> has_entry q k d"
      show "settled g P S (best_cost s) (visited s) k d"
      proof (cases "(v, L) = k \<and> c = d")
        case True
        with bound show ?thesis by (simp add: settled_def)
      next
        case False
        with a he have "\<not> has_entry (pq s) k d" by simp
        with a show ?thesis by (simp add: I6)
      qed
    qed
    then show ?thesis unfolding st comp_inv_def using I7 by simp
  next
    case full
    then have lt: "Fin c < best_cost s" by simp
    with full have st: "basic_step g P S s = s\<lparr>best_cost := Fin c, best_path := p, pq := q\<rparr>"
      by (simp add: basic_step_def pop)
    have "\<And>k d. map_of (visited s) k = Some d \<Longrightarrow> \<not> has_entry q k d \<Longrightarrow>
       settled g P S (Fin c) (visited s) k d"
    proof -
      fix k d assume a: "map_of (visited s) k = Some d" "\<not> has_entry q k d"
      show "settled g P S (Fin c) (visited s) k d"
      proof (cases "(v, L) = k \<and> c = d")
        case True
        then show ?thesis by (simp add: settled_def)
      next
        case False
        with a he have "\<not> has_entry (pq s) k d" by simp
        with a have "settled g P S (best_cost s) (visited s) k d" by (simp add: I6)
        moreover from lt have "Fin c \<le> best_cost s" by simp
        ultimately show ?thesis by (rule settled_mono) simp
      qed
    qed
    then show ?thesis unfolding st comp_inv_def using I7 by simp
  next
    case expand
    obtain vis' q' where f:
      "fold (basic_relax g P S (c, v, L, p)) (neighbors g v) (visited s, q) = (vis', q')"
      by (cases "fold (basic_relax g P S (c, v, L, p)) (neighbors g v) (visited s, q)")
    from expand have st: "basic_step g P S s = s\<lparr>visited := vis', pq := q'\<rparr>"
      by (simp add: basic_step_def pop f)
    from basic_relax_fold_relaxed[of g P S "(c, v, L, p)" "neighbors g v" "(visited s, q)"]
    have R: "(\<forall>k d. has_entry q k d \<longrightarrow> has_entry q' k d) \<and>
       (\<forall>k. visited_get vis' k \<le> visited_get (visited s) k) \<and>
       (\<forall>k d. map_of vis' k = Some d \<longrightarrow> map_of (visited s) k = Some d \<or> has_entry q' k d) \<and>
       (\<forall>u\<in>set (neighbors g v).
           visited_get vis' (u, L \<union> (S_get S u \<inter> P)) \<le> Fin (c + weight g v u))"
      unfolding f relaxed_def by simp
    have r1: "\<And>k d. has_entry q k d \<Longrightarrow> has_entry q' k d" using R by blast
    have r2: "\<And>k. visited_get vis' k \<le> visited_get (visited s) k" using R by blast
    have r3: "\<And>k d. map_of vis' k = Some d \<Longrightarrow> map_of (visited s) k = Some d \<or> has_entry q' k d"
      using R by blast
    have r4: "\<And>u. u \<in> set (neighbors g v) \<Longrightarrow>
                 visited_get vis' (u, L \<union> (S_get S u \<inter> P)) \<le> Fin (c + weight g v u)"
      using R by blast
    have "\<And>k d. map_of vis' k = Some d \<Longrightarrow> \<not> has_entry q' k d \<Longrightarrow>
       settled g P S (best_cost s) vis' k d"
    proof -
      fix k d assume a: "map_of vis' k = Some d" "\<not> has_entry q' k d"
      with r3 have m: "map_of (visited s) k = Some d" by blast
      from a r1 have nq: "\<not> has_entry q k d" by blast
      show "settled g P S (best_cost s) vis' k d"
      proof (cases "(v, L) = k \<and> c = d")
        case True
        then show ?thesis using expand r4 by (auto simp: settled_def)
      next
        case False
        with nq he have "\<not> has_entry (pq s) k d" by simp
        with m have "settled g P S (best_cost s) (visited s) k d" by (simp add: I6)
        then show ?thesis by (rule settled_mono) (simp_all add: r2)
      qed
    qed
    moreover have "\<And>x. x \<in> set (nodes g) \<Longrightarrow> visited_get vis' (x, S_get S x \<inter> P) \<le> Fin 0"
      using I7 r2 by (meson order_trans)
    ultimately show ?thesis unfolding st comp_inv_def by simp
  qed
qed

lemma visited_get_le_Fin:
  "visited_get vis k \<le> Fin d \<longleftrightarrow> (\<exists>d0. map_of vis k = Some d0 \<and> d0 \<le> d)"
  by (cases "map_of vis k") (simp_all add: visited_get_def)

lemma walk_cost_Cons: "walk_cost g (v # u # r) = weight g v u + walk_cost g (u # r)"
  by (simp add: walk_cost_def)

lemma walk_cost_single: "walk_cost g [v] = 0"
  by (simp add: walk_cost_def)

lemma collected_Cons: "collected P S (u # r) = (S_get S u \<inter> P) \<union> collected P S r"
  by (simp add: collected_def)

lemma walk_cost_nonneg:
  "nonneg_weights g \<Longrightarrow> \<forall>(a, b)\<in>set (steps p). b \<in> set (neighbors g a) \<Longrightarrow> 0 \<le> walk_cost g p"
proof (induction p rule: steps.induct)
  case (1 a b p)
  then have "0 \<le> weight g a b" "0 \<le> walk_cost g (b # p)"
    by (auto simp: nonneg_weights_def)
  then show ?case by (simp add: walk_cost_Cons)
qed (simp_all add: walk_cost_def)

lemma along_walk:
  assumes nn: "nonneg_weights g"
    and C: "\<And>k d. map_of vis k = Some d \<Longrightarrow> settled g P S best vis k d"
  shows "\<forall>(a, b)\<in>set (steps (v # rest)). b \<in> set (neighbors g a) \<Longrightarrow>
         visited_get vis (v, A) \<le> Fin d \<Longrightarrow>
         best \<le> Fin (d + walk_cost g (v # rest)) \<or>
         visited_get vis (last (v # rest), A \<union> collected P S rest)
           \<le> Fin (d + walk_cost g (v # rest))"
proof (induction rest arbitrary: v A d)
  case Nil
  then show ?case by (simp add: walk_cost_single collected_def)
next
  case (Cons u rest)
  from Cons.prems(1) have e: "u \<in> set (neighbors g v)"
    and r: "\<forall>(a, b)\<in>set (steps (u # rest)). b \<in> set (neighbors g a)" by auto
  from walk_cost_nonneg[OF nn Cons.prems(1)] have tot: "0 \<le> walk_cost g (v # u # rest)" .
  from Cons.prems(2) obtain d0 where d0: "map_of vis (v, A) = Some d0" "d0 \<le> d"
    by (auto simp: visited_get_le_Fin)
  from C[OF d0(1)] consider (a) "best \<le> Fin d0"
    | (b) "visited_get vis (u, A \<union> (S_get S u \<inter> P)) \<le> Fin (d0 + weight g v u)"
    using e by (auto simp: settled_def)
  then show ?case
  proof cases
    case a
    have "Fin d0 \<le> Fin (d + walk_cost g (v # u # rest))" using d0(2) tot by simp
    with a show ?thesis by (meson order_trans)
  next
    case b
    have "Fin (d0 + weight g v u) \<le> Fin (d + weight g v u)" using d0(2) by simp
    with b have "visited_get vis (u, A \<union> (S_get S u \<inter> P)) \<le> Fin (d + weight g v u)"
      by (meson order_trans)
    from Cons.IH[OF r this] show ?thesis
      by (simp add: walk_cost_Cons collected_Cons add.assoc Un_assoc)
  qed
qed

lemma basic_loop_complete:
  assumes nn: "nonneg_weights g"
    and l: "basic_loop g P S (basic_init g P S) = Some s'"
    and w: "covering_walk g P S w"
  shows "best_cost s' \<le> Fin (walk_cost g w)"
proof -
  from basic_loop_rule[OF l, of "comp_inv g P S"] basic_init_comp basic_step_comp
  have inv: "comp_inv g P S s'" and e: "pq s' = []" by blast+
  have C: "\<And>k d. map_of (visited s') k = Some d \<Longrightarrow>
            settled g P S (best_cost s') (visited s') k d"
  proof -
    fix k d assume "map_of (visited s') k = Some d"
    moreover have "\<not> has_entry (pq s') k d" using e by (simp add: has_entry_def)
    ultimately show "settled g P S (best_cost s') (visited s') k d"
      using inv unfolding comp_inv_def by blast
  qed
  from w have ne: "w \<noteq> []" and hd: "hd w \<in> set (nodes g)"
    and st: "\<forall>(a, b)\<in>set (steps w). b \<in> set (neighbors g a)"
    and col: "collected P S w = P"
    by (auto simp: covering_walk_def walk_def)
  from ne obtain v rest where vr: "w = v # rest" by (cases w) auto
  from inv hd vr have "visited_get (visited s') (v, S_get S v \<inter> P) \<le> Fin 0"
    by (simp add: comp_inv_def)
  from along_walk[of g "visited s'" P S "best_cost s'", OF nn C st[unfolded vr] this]
  have "best_cost s' \<le> Fin (walk_cost g w) \<or>
        visited_get (visited s') (last w, P) \<le> Fin (walk_cost g w)"
    using col unfolding vr by (simp add: collected_Cons)
  then show ?thesis
  proof
    assume "visited_get (visited s') (last w, P) \<le> Fin (walk_cost g w)"
    then obtain d0 where d0: "map_of (visited s') (last w, P) = Some d0" "d0 \<le> walk_cost g w"
      by (auto simp: visited_get_le_Fin)
    from C[OF d0(1)] have "best_cost s' \<le> Fin d0" by (simp add: settled_def)
    moreover have "Fin d0 \<le> Fin (walk_cost g w)" using d0(2) by simp
    ultimately show ?thesis by (meson order_trans)
  qed
qed

end
